theory Spec2Isabelle
  imports Complex_Main
begin

section \<open>Python values\<close>

text \<open>
  Python's unbounded \<open>int\<close> is \<open>int\<close>. A \<open>str\<close> is a \<open>string\<close>: a list of characters
  whose code points are below 256. The exceptions the code raises are values of the type
  \<open>error\<close>; each carries the message that \<open>str(exc)\<close> returns.
\<close>

datatype error =
    ValueError string
  | FileNotFoundError string
  | RuntimeError string
  | Exception string

fun str_exc :: "error \<Rightarrow> string" where
  "str_exc (ValueError m) = m"
| "str_exc (FileNotFoundError m) = m"
| "str_exc (RuntimeError m) = m"
| "str_exc (Exception m) = m"

definition digit_char :: "nat \<Rightarrow> char" where
  "digit_char d = char_of (48 + d)"

text \<open>\<open>str(n)\<close> for an integer: decimal digits, most significant first, \<open>-\<close> in front
  of a negative number.\<close>

fun str_nat :: "nat \<Rightarrow> string" where
  "str_nat n = (if n < 10 then [digit_char n] else str_nat (n div 10) @ [digit_char (n mod 10)])"

declare str_nat.simps [simp del]

definition str_int :: "int \<Rightarrow> string" where
  "str_int i = (if i < 0 then CHR ''-'' # str_nat (nat (- i)) else str_nat (nat i))"

text \<open>\<open>range(i, stop, step)\<close> for a positive step, as the list of its values.\<close>

function py_range :: "int \<Rightarrow> int \<Rightarrow> int \<Rightarrow> int list" where
  "py_range i stop step =
     (if 0 < step \<and> i < stop then i # py_range (i + step) stop step else [])"
  by pat_completeness auto
termination
  by (relation "measure (\<lambda>(i, stop, step). nat (stop - i))") auto

declare py_range.simps [simp del]

subsection \<open>Strings\<close>

text \<open>
  \<open>str.isspace\<close> on one character, for code points below 256: tab, line feed, vertical
  tab, form feed, carriage return, the separators 28 to 31, space, next line (133) and
  no-break space (160). The regular expression class \<open>\s\<close> of a \<open>str\<close> pattern is the
  same set.
\<close>

definition is_space :: "char \<Rightarrow> bool" where
  "is_space c = (of_char c \<in> {9, 10, 11, 12, 13, 28, 29, 30, 31, 32, 133, 160 :: nat})"

text \<open>\<open>s.strip()\<close>: whitespace removed from both ends.\<close>

definition strip :: "string \<Rightarrow> string" where
  "strip s = rev (dropWhile is_space (rev (dropWhile is_space s)))"

text \<open>\<open>sep.join(xs)\<close>.\<close>

fun join :: "string \<Rightarrow> string list \<Rightarrow> string" where
  "join sep [] = []"
| "join sep [x] = x"
| "join sep (x # y # ys) = x @ sep @ join sep (y # ys)"


text \<open>\<open>s.startswith(p)\<close>.\<close>

fun startswith :: "string \<Rightarrow> string \<Rightarrow> bool" where
  "startswith s [] = True"
| "startswith [] (p # ps) = False"
| "startswith (c # s) (p # ps) = (c = p \<and> startswith s ps)"

text \<open>
  An exception that is raised ends the computation with \<open>Inl\<close>; \<open>and_then\<close> passes the
  value of a call that returned to the rest of the block.
\<close>

definition and_then :: "error + 'a \<Rightarrow> ('a \<Rightarrow> error + 'b) \<Rightarrow> error + 'b" where
  "and_then r f = (case r of Inl e \<Rightarrow> Inl e | Inr v \<Rightarrow> f v)"

text \<open>
  \<open>f"{x:.2f}"\<close>: two digits after the point, rounded to the nearest hundredth, a tie to
  the even one.
\<close>

definition round_half_even :: "rat \<Rightarrow> int" where
  "round_half_even x =
     (let f = \<lfloor>x\<rfloor>; d = x - of_int f
      in if d < 1 / 2 then f else if d > 1 / 2 then f + 1
         else if even f then f else f + 1)"

definition format_2f :: "rat \<Rightarrow> string" where
  "format_2f x =
     (let q = nat (round_half_even (\<bar>x\<bar> * 100))
      in (if x < 0 then ''-'' else '''') @ str_nat (q div 100) @ ''.''
           @ [digit_char (q mod 100 div 10), digit_char (q mod 10)])"


section \<open>models.py\<close>

text \<open>
  The dataclasses of the model. A \<open>float\<close> is a rational number here: arithmetic on
  coordinates is exact, and there is no infinity and no NaN. A bounding box is the tuple
  \<open>(x0, y0, x1, y1)\<close>. The field \<open>text\<close> of a block is \<open>block_text\<close>, that of an OCR
  result \<open>ocr_text\<close>; \<open>block_type\<close> is a string, as in the source. The field
  \<open>content\<close> of a section is \<open>section_content\<close>, \<open>content\<close> is that of a page.
\<close>

datatype PageClassification = NATIVE_TEXT | SCANNED | MIXED

type_synonym bbox = "rat \<times> rat \<times> rat \<times> rat"

record TextBlock =
  block_text :: string
  bbox :: bbox
  block_type :: string

record Table =
  rows :: "string list list"

record ExtractedContent =
  body_text :: string
  headers :: "string list"
  footers :: "string list"
  tables :: "Table list"
  reading_order_blocks :: "TextBlock list"

record PageContent =
  page_number :: int
  classification :: PageClassification
  content :: ExtractedContent
  ocr_confidence :: "rat option"

record OCRResult =
  ocr_text :: string
  confidence :: rat
  blocks :: "TextBlock list"

text \<open>
  A \<open>DocumentSection\<close> object holds references to its subsections, and the hierarchy
  builders change sections through these references. The type of a reference is the
  parameter \<open>'r\<close>: an address while the objects live in a heap, a whole section once the
  object graph is read as a tree (\<open>Section\<close>, the form a \<open>Document\<close> holds).
\<close>

datatype 'r DocumentSection =
  DocumentSection (title: string) (level: int) (section_content: string)
    (page_start: int) (page_end: int) (subsections: "'r list")

datatype Section = Section (section_of: "Section DocumentSection")

record Document =
  sections :: "Section list"
  pages :: "PageContent list"


section \<open>chunk\_manager.py\<close>

record PageRange =
  range_start :: int
  range_end :: int

text \<open>
  \<open>ChunkManager.iter_chunks\<close>. The page count is what \<open>get_page_count\<close> returns for the
  path: a number, or the error of \<open>fitz.open\<close>. The chunk size is checked first. The
  generator's ranges are given as the list of the values it yields, in order.
\<close>

definition iter_chunks :: "error + int \<Rightarrow> int \<Rightarrow> error + PageRange list" where
  "iter_chunks page_count chunk_size =
     (if chunk_size \<le> 0
      then Inl (ValueError (''chunk_size must be positive, got '' @ str_int chunk_size))
      else case page_count of
             Inl e \<Rightarrow> Inl e
           | Inr total_pages \<Rightarrow>
               Inr (map (\<lambda>start.
                        \<lparr>range_start = start, range_end = min (start + chunk_size) total_pages\<rparr>)
                      (py_range 0 total_pages chunk_size)))"


section \<open>content\_merger.py\<close>

fun bbox_area :: "bbox \<Rightarrow> rat" where
  "bbox_area (x0, y0, x1, y1) = max 0 (x1 - x0) * max 0 (y1 - y0)"

fun intersection_area :: "bbox \<Rightarrow> bbox \<Rightarrow> rat" where
  "intersection_area (ax0, ay0, ax1, ay1) (bx0, by0, bx1, by1) =
     (let x0 = max ax0 bx0; y0 = max ay0 by0; x1 = min ax1 bx1; y1 = min ay1 by1;
          width = max 0 (x1 - x0); height = max 0 (y1 - y0)
      in width * height)"

definition overlap_ratio :: "bbox \<Rightarrow> bbox \<Rightarrow> rat" where
  "overlap_ratio a b =
     (let area_a = bbox_area a; area_b = bbox_area b
      in if area_a = 0 \<or> area_b = 0 then 0
         else intersection_area a b / min area_a area_b)"

text \<open>The inner loop of \<open>merge\<close>: \<open>is_duplicate\<close> for one OCR block, with its \<open>break\<close>.\<close>

fun is_duplicate :: "TextBlock list \<Rightarrow> TextBlock \<Rightarrow> bool" where
  "is_duplicate [] ocr_block = False"
| "is_duplicate (native_block # native_blocks) ocr_block =
     (if overlap_ratio (bbox native_block) (bbox ocr_block) > 1 / 2 then True
      else is_duplicate native_blocks ocr_block)"

text \<open>The outer loop: the OCR blocks that are appended to \<open>new_ocr_blocks\<close>, in order.\<close>

fun new_ocr_blocks :: "TextBlock list \<Rightarrow> TextBlock list \<Rightarrow> TextBlock list" where
  "new_ocr_blocks native_blocks [] = []"
| "new_ocr_blocks native_blocks (ocr_block # ocr_blocks) =
     (if \<not> is_duplicate native_blocks ocr_block
      then ocr_block # new_ocr_blocks native_blocks ocr_blocks
      else new_ocr_blocks native_blocks ocr_blocks)"

definition merge :: "ExtractedContent \<Rightarrow> OCRResult \<Rightarrow> ExtractedContent" where
  "merge native ocr =
     (let native_blocks = reading_order_blocks native;
          new_blocks = new_ocr_blocks native_blocks (blocks ocr);
          merged_blocks = native_blocks @ new_blocks;
          ocr_extra_text =
            join ''\<newline>''
              (map block_text (filter (\<lambda>block. strip (block_text block) \<noteq> []) new_blocks));
          merged_body =
            (if body_text native \<noteq> [] \<and> ocr_extra_text \<noteq> []
             then body_text native @ ''\<newline>'' @ ocr_extra_text
             else if ocr_extra_text \<noteq> [] then ocr_extra_text
             else body_text native)
      in \<lparr>body_text = merged_body,
          headers = headers native,
          footers = footers native,
          tables = tables native,
          reading_order_blocks = merged_blocks\<rparr>)"


section \<open>The section objects and their heap\<close>

text \<open>
  The heap is the list of the section objects; an address is an index into it. The two
  assignments the builders make to a section:
\<close>

type_synonym addr = nat
type_synonym heap = "addr DocumentSection list"

fun append_subsection :: "'r DocumentSection \<Rightarrow> 'r \<Rightarrow> 'r DocumentSection" where
  "append_subsection (DocumentSection t l c ps pe subs) s = DocumentSection t l c ps pe (subs @ [s])"

fun set_page_end :: "'r DocumentSection \<Rightarrow> int \<Rightarrow> 'r DocumentSection" where
  "set_page_end (DocumentSection t l c ps pe subs) pe' = DocumentSection t l c ps pe' subs"

text \<open>
  The tree below an address: the object with each reference replaced by the tree below
  it. The recursion is bounded by the number of nested levels it may descend; in a heap of
  \<open>n\<close> objects without a cycle, \<open>n\<close> levels reach every object.
\<close>

fun section_tree :: "nat \<Rightarrow> heap \<Rightarrow> addr \<Rightarrow> Section" where
  "section_tree 0 h a =
     Section (DocumentSection (title (h ! a)) (level (h ! a)) (section_content (h ! a))
                (page_start (h ! a)) (page_end (h ! a)) [])"
| "section_tree (Suc depth) h a =
     Section (DocumentSection (title (h ! a)) (level (h ! a)) (section_content (h ! a))
                (page_start (h ! a)) (page_end (h ! a))
                (map (section_tree depth h) (subsections (h ! a))))"

definition forest :: "heap \<times> addr list \<Rightarrow> Section list" where
  "forest r = (case r of (h, roots) \<Rightarrow> map (section_tree (length h) h) roots)"


section \<open>pdf\_processor.py: the section hierarchy\<close>

text \<open>
  \<open>PDFProcessor._build_section_hierarchy\<close>. \<open>flat_sections\<close> is the list of the addresses
  of the sections, \<open>root\<close> and \<open>stack\<close> are lists of addresses too; the top of the stack
  (\<open>stack[-1]\<close>) is the head of the list. The result is the heap after the loop and
  \<open>root\<close>.
\<close>

fun pop_stack :: "heap \<Rightarrow> addr list \<Rightarrow> addr \<Rightarrow> addr list" where
  "pop_stack h [] section = []"
| "pop_stack h (top_section # stack) section =
     (if level (h ! top_section) \<ge> level (h ! section) then pop_stack h stack section
      else top_section # stack)"

fun build_loop :: "heap \<Rightarrow> addr list \<Rightarrow> addr list \<Rightarrow> addr list \<Rightarrow> heap \<times> addr list" where
  "build_loop h roots stack [] = (h, roots)"
| "build_loop h roots stack (section # flat_sections) =
     (case pop_stack h stack section of
        [] \<Rightarrow> build_loop h (roots @ [section]) [section] flat_sections
      | parent # stack' \<Rightarrow>
          (let h1 = h[parent := append_subsection (h ! parent) section];
               h2 = (if page_end (h1 ! section) > page_end (h1 ! parent)
                     then h1[parent := set_page_end (h1 ! parent) (page_end (h1 ! section))]
                     else h1)
           in build_loop h2 roots (section # parent # stack') flat_sections))"

definition build_section_hierarchy :: "heap \<Rightarrow> addr list \<Rightarrow> heap \<times> addr list" where
  "build_section_hierarchy h flat_sections =
     (if flat_sections = [] then (h, []) else build_loop h [] [] flat_sections)"


section \<open>markdown\_converter.py: the section hierarchy\<close>

text \<open>\<open>MarkdownConverter._build_section_hierarchy\<close>, in the same way.\<close>

fun md_pop_stack :: "heap \<Rightarrow> addr list \<Rightarrow> addr \<Rightarrow> addr list" where
  "md_pop_stack h [] section = []"
| "md_pop_stack h (top_section # stack) section =
     (if level (h ! top_section) \<ge> level (h ! section) then md_pop_stack h stack section
      else top_section # stack)"

fun md_build_loop :: "heap \<Rightarrow> addr list \<Rightarrow> addr list \<Rightarrow> addr list \<Rightarrow> heap \<times> addr list" where
  "md_build_loop h roots stack [] = (h, roots)"
| "md_build_loop h roots stack (section # flat_sections) =
     (case md_pop_stack h stack section of
        [] \<Rightarrow> md_build_loop h (roots @ [section]) [section] flat_sections
      | parent # stack' \<Rightarrow>
          (let h1 = h[parent := append_subsection (h ! parent) section];
               h2 = (if page_end (h1 ! section) > page_end (h1 ! parent)
                     then h1[parent := set_page_end (h1 ! parent) (page_end (h1 ! section))]
                     else h1)
           in md_build_loop h2 roots (section # parent # stack') flat_sections))"

definition md_build_section_hierarchy :: "heap \<Rightarrow> addr list \<Rightarrow> heap \<times> addr list" where
  "md_build_section_hierarchy h flat_sections =
     (if flat_sections = [] then (h, []) else md_build_loop h [] [] flat_sections)"


section \<open>pdf\_processor.py: the pipeline\<close>

text \<open>
  What \<open>process\<close> calls outside this repository's own logic is a parameter: whether the
  path exists, what \<open>fitz.open\<close> returns for it (a document or an exception; the file
  does not change during a run, so every call returns the same), the page classifier, the
  native text extractor, the renderer of a page to an image, the OCR engine, and the two
  readings of the monotonic clock. Each collaborator may raise. Logging is left out: it
  does not change what \<open>process\<close> returns.
\<close>

text \<open>\<open>ProcessingConfig\<close> and \<open>ProcessingSummary\<close> of models.py.\<close>

record ProcessingConfig =
  chunk_size :: int
  ocr_threshold :: rat
  verbose :: bool

record ProcessingSummary =
  total_pages :: int
  pages_processed :: int
  pages_skipped :: int
  warnings :: "string list"
  processing_time_seconds :: rat

record 'page pdf_document =
  page_count :: nat
  load_page :: "int \<Rightarrow> error + 'page"

record ('page, 'image) environment =
  pdf_path :: string
  path_exists :: bool
  open_pdf :: "error + 'page pdf_document"
  classify :: "'page \<Rightarrow> error + PageClassification"
  extract_text :: "'page \<Rightarrow> error + ExtractedContent"
  render_page_to_image :: "'page \<Rightarrow> error + 'image"
  ocr_page :: "'image \<Rightarrow> error + OCRResult"
  monotonic_start :: rat
  monotonic_end :: rat

definition get_page_count :: "('page, 'image) environment \<Rightarrow> error + int" where
  "get_page_count env =
     (case open_pdf env of Inl e \<Rightarrow> Inl e | Inr doc \<Rightarrow> Inr (int (page_count doc)))"

definition extract_page_content ::
  "('page, 'image) environment \<Rightarrow> 'page \<Rightarrow> PageClassification \<Rightarrow> error + ExtractedContent" where
  "extract_page_content env page cls =
     (if cls = NATIVE_TEXT then extract_text env page
      else if cls = SCANNED then
        and_then (render_page_to_image env page) (\<lambda>image.
        and_then (ocr_page env image) (\<lambda>ocr_result.
        Inr \<lparr>body_text = ocr_text ocr_result, headers = [], footers = [], tables = [],
             reading_order_blocks = blocks ocr_result\<rparr>))
      else
        and_then (extract_text env page) (\<lambda>native_content.
        and_then (render_page_to_image env page) (\<lambda>image.
        and_then (ocr_page env image) (\<lambda>ocr_result.
        Inr (merge native_content ocr_result)))))"

text \<open>
  The body of the \<open>try\<close> for one page: the exception that leaves it, or the warnings it
  appends (at most the one for a low OCR confidence) and the page it appends.
\<close>

definition try_page ::
  "('page, 'image) environment \<Rightarrow> ProcessingConfig \<Rightarrow> 'page pdf_document \<Rightarrow> int
     \<Rightarrow> error + (string list \<times> PageContent)" where
  "try_page env config doc page_num =
     and_then (load_page doc page_num) (\<lambda>page.
     and_then (classify env page) (\<lambda>cls.
     and_then (extract_page_content env page cls) (\<lambda>page_content.
     and_then
       (if cls = SCANNED \<or> cls = MIXED then
          and_then (render_page_to_image env page) (\<lambda>image.
          and_then (ocr_page env image) (\<lambda>ocr_result.
          Inr (Some (confidence ocr_result),
               if confidence ocr_result < ocr_threshold config
               then [''Low OCR confidence on page '' @ str_int (page_num + 1) @ '': ''
                       @ format_2f (confidence ocr_result)]
               else [])))
        else Inr (None, []))
       (\<lambda>(conf, new_warnings).
     Inr (new_warnings,
          \<lparr>page_number = page_num + 1, classification = cls, content = page_content,
           ocr_confidence = conf\<rparr>)))))"

text \<open>
  One turn of the inner loop, on the state \<open>(warnings, pages, pages_skipped)\<close>: the
  \<open>try\<close> and its \<open>except Exception\<close>.
\<close>

type_synonym run_state = "string list \<times> PageContent list \<times> int"

definition process_page ::
  "('page, 'image) environment \<Rightarrow> ProcessingConfig \<Rightarrow> 'page pdf_document \<Rightarrow> run_state \<Rightarrow> int
     \<Rightarrow> run_state" where
  "process_page env config doc st page_num =
     (case st of (warns, pgs, skipped) \<Rightarrow>
        (case try_page env config doc page_num of
           Inr (new_warnings, page) \<Rightarrow> (warns @ new_warnings, pgs @ [page], skipped)
         | Inl exc \<Rightarrow>
             (warns @ [''Corrupted/unreadable page '' @ str_int (page_num + 1) @ '': ''
                         @ str_exc exc],
              pgs, skipped + 1)))"

fun process_pages ::
  "('page, 'image) environment \<Rightarrow> ProcessingConfig \<Rightarrow> 'page pdf_document \<Rightarrow> int list
     \<Rightarrow> run_state \<Rightarrow> run_state" where
  "process_pages env config doc [] st = st"
| "process_pages env config doc (page_num # page_nums) st =
     process_pages env config doc page_nums (process_page env config doc st page_num)"

text \<open>The outer loop: each chunk opens the document again and walks its page range.\<close>

fun process_chunks ::
  "('page, 'image) environment \<Rightarrow> ProcessingConfig \<Rightarrow> PageRange list \<Rightarrow> run_state
     \<Rightarrow> error + run_state" where
  "process_chunks env config [] st = Inr st"
| "process_chunks env config (page_range # page_ranges) st =
     (case open_pdf env of
        Inl e \<Rightarrow> Inl e
      | Inr doc \<Rightarrow>
          process_chunks env config page_ranges
            (process_pages env config doc
               (py_range (range_start page_range) (range_end page_range) 1) st))"

definition estimate_heading_level :: "TextBlock \<Rightarrow> int" where
  "estimate_heading_level block =
     (let txt = strip (block_text block)
      in if startswith txt ''#''
         then (let hashes = length (takeWhile (\<lambda>ch. ch = CHR ''#'') txt)
               in if 1 \<le> hashes \<and> hashes \<le> 6 then int hashes else 1)
         else 1)"

text \<open>
  \<open>_detect_sections\<close>: the flat list of new section objects, one for each heading block
  with a non-blank text, then the hierarchy over them.
\<close>

definition heading_sections :: "PageContent \<Rightarrow> addr DocumentSection list" where
  "heading_sections page =
     concat (map (\<lambda>block.
        if block_type block \<noteq> ''heading'' then []
        else (let title = strip (block_text block)
              in if title = [] then []
                 else [DocumentSection title (estimate_heading_level block) []
                         (page_number page) (page_number page) []]))
       (reading_order_blocks (content page)))"

definition detect_sections :: "PageContent list \<Rightarrow> Section list" where
  "detect_sections pgs =
     (let flat_sections = concat (map heading_sections pgs)
      in forest (build_section_hierarchy flat_sections [0..<length flat_sections]))"

definition process ::
  "('page, 'image) environment \<Rightarrow> ProcessingConfig \<Rightarrow> error + (Document \<times> ProcessingSummary)" where
  "process env config =
     (if \<not> path_exists env then Inl (FileNotFoundError (''File not found: '' @ pdf_path env))
      else case open_pdf env of
        Inl exc \<Rightarrow> Inl (RuntimeError (''Not a valid PDF: '' @ pdf_path env))
      | Inr test_doc \<Rightarrow>
          and_then (iter_chunks (get_page_count env) (chunk_size config)) (\<lambda>page_ranges.
          and_then (process_chunks env config page_ranges ([], [], 0))
            (\<lambda>(warns, pgs, skipped).
          Inr (\<lparr>sections = detect_sections pgs, pages = pgs\<rparr>,
               \<lparr>total_pages = int (page_count test_doc),
                pages_processed = int (length pgs),
                pages_skipped = skipped,
                warnings = warns,
                processing_time_seconds = monotonic_end env - monotonic_start env\<rparr>))))"

text \<open>
  What one page number contributes to the state: the warnings its turn appends, the page
  it appends (none when the \<open>try\<close> body raised), and whether it is counted as skipped.
\<close>

definition page_warnings ::
  "('page, 'image) environment \<Rightarrow> ProcessingConfig \<Rightarrow> 'page pdf_document \<Rightarrow> int \<Rightarrow> string list" where
  "page_warnings env config doc n =
     (case try_page env config doc n of
        Inl exc \<Rightarrow> [''Corrupted/unreadable page '' @ str_int (n + 1) @ '': '' @ str_exc exc]
      | Inr (new_warnings, page) \<Rightarrow> new_warnings)"

definition page_added ::
  "('page, 'image) environment \<Rightarrow> ProcessingConfig \<Rightarrow> 'page pdf_document \<Rightarrow> int \<Rightarrow> PageContent list" where
  "page_added env config doc n =
     (case try_page env config doc n of Inl exc \<Rightarrow> [] | Inr (new_warnings, page) \<Rightarrow> [page])"

definition page_failed ::
  "('page, 'image) environment \<Rightarrow> ProcessingConfig \<Rightarrow> 'page pdf_document \<Rightarrow> int \<Rightarrow> bool" where
  "page_failed env config doc n = (case try_page env config doc n of Inl exc \<Rightarrow> True | Inr r \<Rightarrow> False)"


section \<open>markdown\_converter.py: parsing\<close>

subsection \<open>Strings and patterns\<close>

text \<open>\<open>s.split(sep)\<close> for a separator of one character, and \<open>s.strip(ch)\<close>.\<close>

fun split_on :: "char \<Rightarrow> string \<Rightarrow> string list" where
  "split_on sep [] = [[]]"
| "split_on sep (c # cs) =
     (if c = sep then [] # split_on sep cs
      else (case split_on sep cs of l # ls \<Rightarrow> (c # l) # ls | [] \<Rightarrow> [[c]]))"

definition strip_char :: "char \<Rightarrow> string \<Rightarrow> string" where
  "strip_char ch s = rev (dropWhile (\<lambda>c. c = ch) (rev (dropWhile (\<lambda>c. c = ch) s)))"

fun endswith :: "string \<Rightarrow> string \<Rightarrow> bool" where
  "endswith s p = startswith (rev s) (rev p)"

definition is_digit :: "char \<Rightarrow> bool" where
  "is_digit c = (48 \<le> (of_char c :: nat) \<and> (of_char c :: nat) \<le> 57)"

text \<open>\<open>int(s)\<close> for a string of decimal digits.\<close>

definition py_int :: "string \<Rightarrow> int" where
  "py_int s = foldl (\<lambda>acc c. 10 * acc + (int (of_char c) - 48)) 0 s"

text \<open>
  The first occurrence of a string in a text: the text before it and the text after it.
\<close>

fun find_sub :: "string \<Rightarrow> string \<Rightarrow> (string \<times> string) option" where
  "find_sub needle [] = (if needle = [] then Some ([], []) else None)"
| "find_sub needle (c # cs) =
     (if startswith (c # cs) needle then Some ([], drop (length needle) (c # cs))
      else map_option (\<lambda>(before, after). (c # before, after)) (find_sub needle cs))"

text \<open>
  The regular expressions of the converter, each as the function that says whether a
  string matches and what its groups are. All but the first two are applied to single
  lines, which hold no line feed, so \<open>.\<close> stands for any character and \<open>$\<close> for the end
  of the string.

  \<open><!-- page: (\d+) -->\<close> at the start of a text: the digits and the text after the match.
\<close>

definition match_page_marker :: "string \<Rightarrow> (string \<times> string) option" where
  "match_page_marker s =
     (if startswith s ''<!-- page: ''
      then (let r = drop 11 s; digits = takeWhile is_digit r; r' = dropWhile is_digit r
            in if digits \<noteq> [] \<and> startswith r' '' -->'' then Some (digits, drop 4 r')
               else None)
      else None)"

text \<open>\<open>^<!-- section: (.+?) -->$\<close>: the title.\<close>

definition match_section_comment :: "string \<Rightarrow> string option" where
  "match_section_comment s =
     (if startswith s ''<!-- section: '' \<and> endswith s '' -->'' \<and> 19 \<le> length s
      then Some (take (length s - 18) (drop 14 s))
      else None)"

text \<open>\<open>^(#{1,6})\s+(.+)$\<close>: the number of hashes.\<close>

definition match_heading :: "string \<Rightarrow> nat option" where
  "match_heading s =
     (let hashes = length (takeWhile (\<lambda>c. c = CHR ''#'') s)
      in case drop hashes s of
           c # d # r \<Rightarrow> if 1 \<le> hashes \<and> hashes \<le> 6 \<and> is_space c then Some hashes else None
         | _ \<Rightarrow> None)"

text \<open>\<open>^#{1,6}\s+\<close>.\<close>

definition match_heading_prefix :: "string \<Rightarrow> bool" where
  "match_heading_prefix s =
     (let hashes = length (takeWhile (\<lambda>c. c = CHR ''#'') s)
      in case drop hashes s of
           c # r \<Rightarrow> 1 \<le> hashes \<and> hashes \<le> 6 \<and> is_space c
         | [] \<Rightarrow> False)"

text \<open>\<open>^(\s*)- (.+)$\<close>: the length of the indent and the text of the item.\<close>

definition match_list_item :: "string \<Rightarrow> (nat \<times> string) option" where
  "match_list_item s =
     (let indent = takeWhile is_space s; r = dropWhile is_space s
      in if startswith r ''- '' \<and> 3 \<le> length r then Some (length indent, drop 2 r) else None)"

text \<open>\<open>^(\s*)- \<close>.\<close>

definition match_list_prefix :: "string \<Rightarrow> bool" where
  "match_list_prefix s = startswith (dropWhile is_space s) ''- ''"

text \<open>\<open>^<!-- (section:|page:)\<close>.\<close>

definition match_comment_prefix :: "string \<Rightarrow> bool" where
  "match_comment_prefix s = (startswith s ''<!-- section:'' \<or> startswith s ''<!-- page:'')"

text \<open>\<open>^-+$\<close>.\<close>

definition match_dashes :: "string \<Rightarrow> bool" where
  "match_dashes s = (s \<noteq> [] \<and> list_all (\<lambda>c. c = CHR ''-'') s)"


subsection \<open>The parsing functions\<close>

lemma find_sub_length: "find_sub needle s = Some (b, a) \<Longrightarrow> length a \<le> length s"
  by (induction s arbitrary: b) (auto split: if_splits)

text \<open>
  \<open>_strip_toc\<close>: \<open>re.sub\<close> of \<open><!-- toc -->.*?<!-- /toc -->\s*\<close> (with \<open>DOTALL\<close>) by the
  empty string. At a start sentinel that has an end sentinel after it, the text up to the
  first such end sentinel and the whitespace after it are dropped, and the scan goes on
  behind them.
\<close>

function strip_toc :: "string \<Rightarrow> string" where
  "strip_toc [] = []"
| "strip_toc (c # cs) =
     (if startswith (c # cs) ''<!-- toc -->''
      then (case find_sub ''<!-- /toc -->'' (drop 12 (c # cs)) of
              Some (inner, rest) \<Rightarrow> strip_toc (dropWhile is_space rest)
            | None \<Rightarrow> c # strip_toc cs)
      else c # strip_toc cs)"
  by pat_completeness auto
termination
proof (relation "measure length")
  fix c cs x2 inner rest
  assume "find_sub ''<!-- /toc -->'' (drop 12 (c # cs)) = Some x2" and "(inner, rest) = x2"
  then have "length rest \<le> length (drop 12 (c # cs))"
    by (auto dest: find_sub_length)
  moreover have "length (dropWhile is_space rest) \<le> length rest"
    by (rule length_dropWhile_le)
  ultimately show "(dropWhile is_space rest, c # cs) \<in> measure length"
    by simp
qed simp_all

text \<open>
  \<open>_strip_section_markers\<close>. A line matches \<open>^\s*<!-- section: .+? -->\s*$\<close> exactly when
  the line without the whitespace at its ends matches \<open>^<!-- section: (.+?) -->$\<close>.
\<close>

definition strip_section_markers :: "string \<Rightarrow> string" where
  "strip_section_markers txt =
     join ''\<newline>''
       (filter (\<lambda>line. match_section_comment (strip line) = None) (split_on CHR ''\<newline>'' txt))"

lemma match_page_marker_length:
  "match_page_marker s = Some (digits, rest) \<Longrightarrow> length rest < length s"
proof -
  assume m: "match_page_marker s = Some (digits, rest)"
  then have st: "startswith s ''<!-- page: ''"
    and r: "rest = drop 4 (dropWhile is_digit (drop 11 s))"
    by (auto simp: match_page_marker_def Let_def split: if_splits)
  from st have "s \<noteq> []" by auto
  moreover have "length (dropWhile is_digit (drop 11 s)) \<le> length (drop 11 s)"
    by (rule length_dropWhile_le)
  ultimately show ?thesis
    using r by (cases s) auto
qed

text \<open>
  \<open>re.split\<close> by the page pattern: the text before the first marker, then for each
  marker its digits and the text up to the next one. \<open>cur\<close> is the text since the last
  marker.
\<close>

function re_split_pages :: "string \<Rightarrow> string \<Rightarrow> string list" where
  "re_split_pages cur [] = [cur]"
| "re_split_pages cur (c # cs) =
     (case match_page_marker (c # cs) of
        Some (digits, rest) \<Rightarrow> cur # digits # re_split_pages [] rest
      | None \<Rightarrow> re_split_pages (cur @ [c]) cs)"
  by pat_completeness auto
termination
  by (relation "measure (\<lambda>(cur, s). length s)") (auto dest: match_page_marker_length)

text \<open>The loop of \<open>_split_by_pages\<close> over \<open>parts[1:]\<close>, and the function.\<close>

fun page_pairs :: "string list \<Rightarrow> (int \<times> string) list" where
  "page_pairs (num # chunk_text # parts) = (py_int num, chunk_text) # page_pairs parts"
| "page_pairs parts = []"

definition split_by_pages :: "string \<Rightarrow> (int \<times> string) list" where
  "split_by_pages txt = page_pairs (tl (re_split_pages [] txt))"

text \<open>
  \<open>_parse_sections_from_chunk\<close>, on the lines that are left. Only the sections are
  returned: \<open>from_markdown\<close> does not use the remaining text. A new section object has no
  subsections.
\<close>

function parse_sections :: "int \<Rightarrow> string list \<Rightarrow> addr DocumentSection list" where
  "parse_sections page_no [] = []"
| "parse_sections page_no (line # lines) =
     (case match_section_comment (strip line) of
        None \<Rightarrow> parse_sections page_no lines
      | Some section_title \<Rightarrow>
          (let lines1 = dropWhile (\<lambda>l. strip l = []) lines
           in case lines1 of
                [] \<Rightarrow> [DocumentSection section_title 1 [] page_no page_no []]
              | l # lines2 \<Rightarrow>
                  (case match_heading (strip l) of
                     None \<Rightarrow>
                       DocumentSection section_title 1 [] page_no page_no []
                         # parse_sections page_no lines1
                   | Some hashes \<Rightarrow>
                       (let content_lines =
                              takeWhile (\<lambda>l. \<not> match_comment_prefix (strip l)) lines2;
                            lines3 = dropWhile (\<lambda>l. \<not> match_comment_prefix (strip l)) lines2
                        in DocumentSection section_title (int hashes)
                             (strip (join ''\<newline>'' content_lines)) page_no page_no []
                             # parse_sections page_no lines3))))"
  by pat_completeness auto
termination
proof (relation "measure (\<lambda>(n, ls). length ls)")
  fix page_no :: int and line :: string and lines x2 x lines1 l lines2
  assume "x = dropWhile (\<lambda>l. strip l = []) lines" and "x = l # lines2"
  then have a: "length (l # lines2) \<le> length lines"
    by (metis length_dropWhile_le)
  then show "((page_no, x), page_no, line # lines) \<in> measure (\<lambda>(n, ls). length ls)"
    using \<open>x = l # lines2\<close> by simp
  fix x2a xa xb
  assume "xb = dropWhile (\<lambda>l. \<not> match_comment_prefix (strip l)) lines2"
  then have "length xb \<le> length lines2"
    by (simp add: length_dropWhile_le)
  with a show "((page_no, xb), page_no, line # lines) \<in> measure (\<lambda>(n, ls). length ls)"
    by simp
qed simp_all

definition parse_sections_from_chunk :: "string \<Rightarrow> int \<Rightarrow> addr DocumentSection list" where
  "parse_sections_from_chunk chunk_text page_no =
     parse_sections page_no (split_on CHR ''\<newline>'' chunk_text)"

text \<open>\<open>_parse_table\<close>.\<close>

definition table_cells :: "string \<Rightarrow> string list" where
  "table_cells line = map strip (split_on CHR ''|'' (strip_char CHR ''|'' line))"

definition is_separator :: "string list \<Rightarrow> bool" where
  "is_separator cells =
     list_all (\<lambda>c. match_dashes (strip c)) (filter (\<lambda>c. strip c \<noteq> []) cells)"

fun parse_table :: "string list \<Rightarrow> Table option" where
  "parse_table (line0 # line1 # lines) =
     Some \<lparr>rows = table_cells line0
                  # (if is_separator (table_cells line1) then [] else [table_cells line1])
                  @ map table_cells lines\<rparr>"
| "parse_table lines = None"

text \<open>
  The tests of \<open>_parse_extracted_content\<close> on a line, and the line at which the paragraph
  loop stops.
\<close>

definition is_table_line :: "string \<Rightarrow> bool" where
  "is_table_line l = startswith (strip l) ''|''"

definition paragraph_break :: "string \<Rightarrow> bool" where
  "paragraph_break l =
     (strip l = [] \<or> is_table_line l \<or> match_list_prefix l \<or> match_heading_prefix (strip l))"

text \<open>
  The main loop of \<open>_parse_extracted_content\<close>, on the lines from index \<open>i\<close> on, with the
  blocks and tables found so far. The loop body does not always advance \<open>i\<close>: the loop is
  a partial function, and \<open>None\<close> is a run that does not end.
\<close>

partial_function (option) parse_lines ::
  "string list \<Rightarrow> TextBlock list \<Rightarrow> Table list \<Rightarrow> (TextBlock list \<times> Table list) option" where
  "parse_lines lines blks tbls =
     (case lines of
        [] \<Rightarrow> Some (blks, tbls)
      | line # rest \<Rightarrow>
          if strip line = [] then parse_lines rest blks tbls
          else if is_table_line line then
            (let table_lines = map strip (takeWhile is_table_line lines);
                 lines' = dropWhile is_table_line lines
             in parse_lines lines' blks
                  (case parse_table table_lines of Some t \<Rightarrow> tbls @ [t] | None \<Rightarrow> tbls))
          else
            (case match_list_item line of
               Some (indent, item_text) \<Rightarrow>
                 parse_lines rest
                   (blks @ [\<lparr>block_text = item_text,
                             bbox = (10 + of_nat (indent div 2) * 30, 0, 0, 0),
                             block_type = ''list_item''\<rparr>])
                   tbls
             | None \<Rightarrow>
                 if match_heading (strip line) \<noteq> None then
                   parse_lines rest
                     (blks @ [\<lparr>block_text = strip line, bbox = (0, 0, 0, 0),
                               block_type = ''heading''\<rparr>])
                     tbls
                 else
                   (let para_lines = map strip (takeWhile (\<lambda>l. \<not> paragraph_break l) lines);
                        lines' = dropWhile (\<lambda>l. \<not> paragraph_break l) lines
                    in parse_lines lines'
                         (if para_lines \<noteq> []
                          then blks @ [\<lparr>block_text = join ''\<newline>'' para_lines,
                                         bbox = (0, 0, 0, 0), block_type = ''paragraph''\<rparr>]
                          else blks)
                         tbls)))"

declare parse_lines.simps [code]

text \<open>
  A line at which the main loop comes to none of its four \<open>continue\<close>s and the paragraph
  loop stops before its first turn.
\<close>

definition stuck_line :: "string \<Rightarrow> bool" where
  "stuck_line l =
     (strip l \<noteq> [] \<and> \<not> is_table_line l \<and> match_list_item l = None
      \<and> match_heading (strip l) = None \<and> paragraph_break l)"

definition parse_extracted_content :: "string \<Rightarrow> ExtractedContent option" where
  "parse_extracted_content txt =
     (if strip txt = []
      then Some \<lparr>body_text = [], headers = [], footers = [], tables = [],
                 reading_order_blocks = []\<rparr>
      else case parse_lines (split_on CHR ''\<newline>'' (strip txt)) [] [] of
             None \<Rightarrow> None
           | Some (blks, tbls) \<Rightarrow>
               Some \<lparr>body_text =
                       join (''\<newline>'' @ ''\<newline>'')
                         (map block_text (filter (\<lambda>b. block_type b = ''paragraph'') blks)),
                     headers = [], footers = [], tables = tbls,
                     reading_order_blocks = blks\<rparr>)"

text \<open>
  The loop of \<open>from_markdown\<close> over the page chunks: the sections found so far and the
  pages.
\<close>

fun parse_pages ::
  "(int \<times> string) list \<Rightarrow> (addr DocumentSection list \<times> PageContent list) option" where
  "parse_pages [] = Some ([], [])"
| "parse_pages ((page_no, chunk_text) # page_chunks) =
     (case parse_extracted_content (strip_section_markers chunk_text) of
        None \<Rightarrow> None
      | Some extracted \<Rightarrow>
          (case parse_pages page_chunks of
             None \<Rightarrow> None
           | Some (all_sections, pgs) \<Rightarrow>
               Some (parse_sections_from_chunk chunk_text page_no @ all_sections,
                     \<lparr>page_number = page_no, classification = NATIVE_TEXT,
                      content = extracted, ocr_confidence = None\<rparr> # pgs)))"

definition from_markdown :: "string \<Rightarrow> Document option" where
  "from_markdown markdown_str =
     (if strip markdown_str = [] then Some \<lparr>sections = [], pages = []\<rparr>
      else case parse_pages (split_by_pages (strip_toc markdown_str)) of
             None \<Rightarrow> None
           | Some (all_sections, pgs) \<Rightarrow>
               Some \<lparr>sections =
                       forest (md_build_section_hierarchy all_sections
                                 [0..<length all_sections]),
                     pages = pgs\<rparr>)"


section \<open>markdown\_converter.py: rendering\<close>

subsection \<open>Character classes\<close>

text \<open>
  \<open>str.isalnum\<close> on one character with a code point below 256 (letters, digits and the
  numeric characters of Latin-1); the class \<open>\w\<close> is this set and the underscore.
  \<open>str.lower\<close> on such a character.
\<close>

definition is_alnum :: "char \<Rightarrow> bool" where
  "is_alnum c =
     (let n = (of_char c :: nat)
      in (48 \<le> n \<and> n \<le> 57) \<or> (65 \<le> n \<and> n \<le> 90) \<or> (97 \<le> n \<and> n \<le> 122)
         \<or> n \<in> {170, 178, 179, 181, 185, 186, 188, 189, 190}
         \<or> (192 \<le> n \<and> n \<le> 214) \<or> (216 \<le> n \<and> n \<le> 246) \<or> (248 \<le> n \<and> n \<le> 255))"

definition is_word :: "char \<Rightarrow> bool" where
  "is_word c = (is_alnum c \<or> c = CHR ''_'')"

definition lower_char :: "char \<Rightarrow> char" where
  "lower_char c =
     (let n = (of_char c :: nat)
      in if (65 \<le> n \<and> n \<le> 90) \<or> (192 \<le> n \<and> n \<le> 214) \<or> (216 \<le> n \<and> n \<le> 222)
         then char_of (n + 32) else c)"

text \<open>\<open>re.sub\<close> of \<open>[class]+\<close> by one character: each run of the class becomes \<open>r\<close>.\<close>

function sub_runs :: "(char \<Rightarrow> bool) \<Rightarrow> char \<Rightarrow> string \<Rightarrow> string" where
  "sub_runs P r [] = []"
| "sub_runs P r (c # cs) =
     (if P c then r # sub_runs P r (dropWhile P cs) else c # sub_runs P r cs)"
  by pat_completeness auto
termination
  by (relation "measure (\<lambda>(P, r, s). length s)")
     (auto simp: less_Suc_eq_le length_dropWhile_le)

definition slugify :: "string \<Rightarrow> string" where
  "slugify txt =
     (let slug = strip (map lower_char txt);
          slug = filter (\<lambda>c. is_word c \<or> is_space c \<or> c = CHR ''-'') slug;
          slug = sub_runs (\<lambda>c. is_space c \<or> c = CHR ''_'') CHR ''-'' slug;
          slug = sub_runs (\<lambda>c. c = CHR ''-'') CHR ''-'' slug
      in strip_char CHR ''-'' slug)"


subsection \<open>The table of contents and the sections of a page\<close>

text \<open>
  \<open>_collect_toc_entries\<close> and \<open>_find_sections_on_page\<close>, each for one section and its
  subsections; the functions of the source run them over a list of sections.
\<close>

fun toc_entries :: "nat \<Rightarrow> Section \<Rightarrow> (nat \<times> string \<times> int \<times> int) list" where
  "toc_entries depth (Section (DocumentSection t l c ps pe subs)) =
     (depth, t, ps, pe) # concat (map (toc_entries (depth + 1)) subs)"

definition collect_toc_entries :: "Section list \<Rightarrow> nat \<Rightarrow> (nat \<times> string \<times> int \<times> int) list" where
  "collect_toc_entries secs depth = concat (map (toc_entries depth) secs)"

definition toc_line :: "nat \<times> string \<times> int \<times> int \<Rightarrow> string" where
  "toc_line entry =
     (case entry of (indent, t, ps, pe) \<Rightarrow>
        concat (replicate indent ''  '') @ ''- ['' @ t @ ''](#'' @ slugify t @ '') (p. ''
          @ str_int ps @ ''-'' @ str_int pe @ '')'')"

definition generate_toc :: "Section list \<Rightarrow> string" where
  "generate_toc secs =
     (let entries = collect_toc_entries secs 0
      in if entries = [] then []
         else join ''\<newline>'' ([''<!-- toc -->''] @ map toc_line entries @ [''<!-- /toc -->'']))"

fun sections_from :: "int \<Rightarrow> Section \<Rightarrow> Section list" where
  "sections_from page_no (Section (DocumentSection t l c ps pe subs)) =
     (if ps = page_no then [Section (DocumentSection t l c ps pe subs)] else [])
       @ concat (map (sections_from page_no) subs)"

definition find_sections_on_page :: "Section list \<Rightarrow> int \<Rightarrow> Section list" where
  "find_sections_on_page secs page_no = concat (map (sections_from page_no) secs)"


subsection \<open>Blocks and tables\<close>

text \<open>\<open>_render_list_items\<close>; \<open>int(x)\<close> of a positive number is its floor.\<close>

definition bbox_x0 :: "TextBlock \<Rightarrow> rat" where
  "bbox_x0 b = fst (bbox b)"

definition render_list_items :: "TextBlock list \<Rightarrow> string" where
  "render_list_items items =
     (case items of
        [] \<Rightarrow> []
      | first # others \<Rightarrow>
          (let base_x = fold min (map bbox_x0 others) (bbox_x0 first)
           in join ''\<newline>''
                (map (\<lambda>item.
                        (let indent_offset = bbox_x0 item - base_x;
                             nesting_level =
                               (if indent_offset > 15 then nat \<lfloor>indent_offset / 30\<rfloor> else 0)
                         in concat (replicate nesting_level ''  '') @ ''- '' @ block_text item))
                   items)))"

text \<open>
  The loop of \<open>_render_blocks\<close>, with \<open>parts\<close> and the list items collected since the last
  other block; every block that is not a list item is rendered as its text.
\<close>

fun render_blocks_loop :: "TextBlock list \<Rightarrow> string list \<Rightarrow> TextBlock list \<Rightarrow> string list" where
  "render_blocks_loop [] parts list_items =
     (if list_items \<noteq> [] then parts @ [render_list_items list_items] else parts)"
| "render_blocks_loop (block # blks) parts list_items =
     (if block_type block = ''list_item''
      then render_blocks_loop blks parts (list_items @ [block])
      else render_blocks_loop blks
             ((if list_items \<noteq> [] then parts @ [render_list_items list_items] else parts)
                @ [block_text block])
             [])"

definition render_blocks :: "TextBlock list \<Rightarrow> string" where
  "render_blocks blks =
     join (''\<newline>'' @ ''\<newline>'') (filter (\<lambda>p. p \<noteq> []) (render_blocks_loop blks [] []))"

definition table_row_line :: "string list \<Rightarrow> string" where
  "table_row_line cells = ''| '' @ join '' | '' cells @ '' |''"

definition render_table :: "Table \<Rightarrow> string" where
  "render_table table =
     (case rows table of
        [] \<Rightarrow> []
      | header # data_rows \<Rightarrow>
          (let col_count = length header
           in join ''\<newline>''
                ([table_row_line header, table_row_line (replicate col_count ''---'')]
                 @ map (\<lambda>row. table_row_line
                                 (take col_count (row @ replicate (col_count - length row) [])))
                     data_rows)))"

definition render_content :: "ExtractedContent \<Rightarrow> string" where
  "render_content c =
     (let parts =
            (if reading_order_blocks c \<noteq> [] then [render_blocks (reading_order_blocks c)]
             else if body_text c \<noteq> [] then [body_text c]
             else [])
            @ map render_table (tables c)
      in join (''\<newline>'' @ ''\<newline>'') (filter (\<lambda>p. p \<noteq> []) parts))"


subsection \<open>The document\<close>

text \<open>What \<open>to_markdown\<close> appends to \<open>parts\<close> for one section and for one page.\<close>

definition section_parts :: "Section \<Rightarrow> string list" where
  "section_parts s =
     (let sec = section_of s
      in [''<!-- section: '' @ title sec @ '' -->'',
          replicate (nat (level sec)) CHR ''#'' @ '' '' @ title sec]
         @ (if section_content sec \<noteq> [] then [section_content sec] else []))"

definition page_parts :: "Section list \<Rightarrow> PageContent \<Rightarrow> string list" where
  "page_parts secs page =
     [''<!-- page: '' @ str_int (page_number page) @ '' -->'']
       @ concat (map section_parts (find_sections_on_page secs (page_number page)))
       @ (let rendered_blocks = render_content (content page)
          in if rendered_blocks \<noteq> [] then [rendered_blocks] else [])"

definition to_markdown :: "Document \<Rightarrow> string" where
  "to_markdown document =
     (let toc = generate_toc (sections document);
          parts = (if toc \<noteq> [] then [toc] else [])
                    @ concat (map (page_parts (sections document)) (pages document))
      in if parts \<noteq> [] then join (''\<newline>'' @ ''\<newline>'') parts @ ''\<newline>'' else [])"


section \<open>The shape of a rendered page\<close>

text \<open>
  The notions in which the round trip is stated and proved; none of them is a function of
  the source. A rendered page is a sequence of pieces, each a group of lines: a blank
  line, a section comment, a heading, a paragraph of one line, a run of list items (each
  with its nesting level and its text) or a table (its rows).
\<close>

datatype piece =
    Blank
  | Comment string
  | Heading string
  | Para string
  | ListRun "(nat \<times> string) list"
  | TableRows "string list list"

definition list_item_line :: "nat \<times> string \<Rightarrow> string" where
  "list_item_line it = (case it of (n, t) \<Rightarrow> concat (replicate n ''  '') @ ''- '' @ t)"

fun piece_lines :: "piece \<Rightarrow> string list" where
  "piece_lines Blank = [[]]"
| "piece_lines (Comment c) = [c]"
| "piece_lines (Heading h) = [h]"
| "piece_lines (Para p) = [p]"
| "piece_lines (ListRun its) = map list_item_line its"
| "piece_lines (TableRows rws) =
     (case rws of
        [] \<Rightarrow> []
      | header # data_rows \<Rightarrow>
          map table_row_line (header # replicate (length header) ''---'' # data_rows))"

definition piece_text :: "piece \<Rightarrow> string" where
  "piece_text p = join ''\<newline>'' (piece_lines p)"

text \<open>The blocks and the tables that the parser makes of a piece.\<close>

fun piece_blocks :: "piece \<Rightarrow> TextBlock list" where
  "piece_blocks (Heading h) = [\<lparr>block_text = h, bbox = (0, 0, 0, 0), block_type = ''heading''\<rparr>]"
| "piece_blocks (Para p) = [\<lparr>block_text = p, bbox = (0, 0, 0, 0), block_type = ''paragraph''\<rparr>]"
| "piece_blocks (ListRun its) =
     map (\<lambda>(n, t). \<lparr>block_text = t, bbox = (10 + of_nat n * 30, 0, 0, 0),
                     block_type = ''list_item''\<rparr>) its"
| "piece_blocks p = []"

fun piece_tables :: "piece \<Rightarrow> Table list" where
  "piece_tables (TableRows rws) = [\<lparr>rows = rws\<rparr>]"
| "piece_tables p = []"

text \<open>The texts that come back from the parser as they went in.\<close>

definition plain_paragraph :: "string \<Rightarrow> bool" where
  "plain_paragraph t =
     (t \<noteq> [] \<and> strip t = t \<and> CHR ''\<newline>'' \<notin> set t \<and> CHR ''<'' \<notin> set t
      \<and> \<not> startswith t ''|'' \<and> \<not> match_list_prefix t \<and> \<not> match_heading_prefix t)"

definition plain_item :: "string \<Rightarrow> bool" where
  "plain_item t = (t \<noteq> [] \<and> strip t = t \<and> CHR ''\<newline>'' \<notin> set t \<and> CHR ''<'' \<notin> set t)"

definition clean_cell :: "string \<Rightarrow> bool" where
  "clean_cell c =
     (strip c = c \<and> CHR ''\<newline>'' \<notin> set c \<and> CHR ''<'' \<notin> set c \<and> CHR ''|'' \<notin> set c)"

definition clean_table :: "string list list \<Rightarrow> bool" where
  "clean_table rws =
     (case rws of
        [] \<Rightarrow> False
      | header # data_rows \<Rightarrow>
          header \<noteq> [] \<and> list_all (\<lambda>row. length row = length header) data_rows
          \<and> list_all (list_all clean_cell) rws)"

definition alnum_title :: "string \<Rightarrow> bool" where
  "alnum_title t = (t \<noteq> [] \<and> list_all is_alnum t)"

definition heading_line :: "string \<Rightarrow> bool" where
  "heading_line h =
     (h \<noteq> [] \<and> strip h = h \<and> CHR ''\<newline>'' \<notin> set h \<and> CHR ''<'' \<notin> set h
      \<and> \<not> startswith h ''|'' \<and> match_list_item h = None \<and> match_heading h \<noteq> None)"

fun good_piece :: "piece \<Rightarrow> bool" where
  "good_piece Blank = True"
| "good_piece (Comment c) = False"
| "good_piece (Heading h) = heading_line h"
| "good_piece (Para p) = plain_paragraph p"
| "good_piece (ListRun its) = (its \<noteq> [] \<and> list_all (\<lambda>(n, t). plain_item t) its)"
| "good_piece (TableRows rws) = clean_table rws"

text \<open>After every piece that is not blank comes a blank line or the end.\<close>

fun separated :: "piece list \<Rightarrow> bool" where
  "separated [] = True"
| "separated [p] = True"
| "separated (p # q # ps) = ((p = Blank \<or> q = Blank) \<and> separated (q # ps))"


text \<open>
  A piece list without the blank lines at its two ends; a piece whose first line starts,
  and one whose last line ends, with a character that is not whitespace.
\<close>

definition trim_blank :: "piece list \<Rightarrow> piece list" where
  "trim_blank ps = rev (dropWhile (\<lambda>p. p = Blank) (rev (dropWhile (\<lambda>p. p = Blank) ps)))"

definition clean_start :: "piece \<Rightarrow> bool" where
  "clean_start p = (case piece_lines p of [] \<Rightarrow> False | l # ls \<Rightarrow> l \<noteq> [] \<and> \<not> is_space (hd l))"

definition clean_end :: "piece \<Rightarrow> bool" where
  "clean_end p =
     (piece_lines p \<noteq> [] \<and> last (piece_lines p) \<noteq> [] \<and> \<not> is_space (last (last (piece_lines p))))"

text \<open>The lines of a piece hold no line feed and no \<open><\<close>, and there is at least one.\<close>

definition plain_lines :: "piece \<Rightarrow> bool" where
  "plain_lines p =
     (piece_lines p \<noteq> []
      \<and> list_all (\<lambda>l. CHR ''\<newline>'' \<notin> set l \<and> CHR ''<'' \<notin> set l) (piece_lines p))"

definition section_comment :: "piece \<Rightarrow> bool" where
  "section_comment p =
     (case p of Comment c \<Rightarrow> CHR ''\<newline>'' \<notin> set c \<and> match_section_comment (strip c) \<noteq> None
      | _ \<Rightarrow> False)"

text \<open>The pieces that are left of a chunk when the section comments are dropped.\<close>

definition kept_pieces :: "piece list \<Rightarrow> nat \<Rightarrow> piece list" where
  "kept_pieces atoms m =
     Blank # concat (map (\<lambda>a. if section_comment a then [Blank] else [Blank, a]) atoms)
       @ replicate m Blank"

text \<open>The content that is parsed from a chunk.\<close>

definition parsed_content :: "piece list \<Rightarrow> ExtractedContent" where
  "parsed_content atoms =
     \<lparr>body_text =
        join (''\<newline>'' @ ''\<newline>'')
          (map block_text
             (filter (\<lambda>b. block_type b = ''paragraph'') (concat (map piece_blocks atoms)))),
      headers = [], footers = [],
      tables = concat (map piece_tables atoms),
      reading_order_blocks = concat (map piece_blocks atoms)\<rparr>"

text \<open>What follows a piece: nothing, or a blank line.\<close>

definition starts_blank :: "string list \<Rightarrow> bool" where
  "starts_blank ls = (case ls of [] \<Rightarrow> True | l # r \<Rightarrow> l = [])"



section \<open>The rendered document\<close>

text \<open>
  The pieces that \<open>to_markdown\<close> writes: for a run of list items (\<open>_render_list_items\<close>),
  for the blocks of a page (the loop of \<open>_render_blocks\<close>, with the list items collected
  since the last other block), for a section and for a page.
\<close>

definition run_piece :: "TextBlock list \<Rightarrow> piece" where
  "run_piece items =
     (case items of
        [] \<Rightarrow> ListRun []
      | first # others \<Rightarrow>
          (let base_x = fold min (map bbox_x0 others) (bbox_x0 first)
           in ListRun
                (map (\<lambda>item.
                        (let indent_offset = bbox_x0 item - base_x
                         in (if indent_offset > 15 then nat \<lfloor>indent_offset / 30\<rfloor> else 0,
                             block_text item)))
                   items)))"

fun block_pieces :: "TextBlock list \<Rightarrow> TextBlock list \<Rightarrow> piece list" where
  "block_pieces [] list_items = (if list_items \<noteq> [] then [run_piece list_items] else [])"
| "block_pieces (block # blks) list_items =
     (if block_type block = ''list_item''
      then block_pieces blks (list_items @ [block])
      else (if list_items \<noteq> [] then [run_piece list_items] else [])
             @ Para (block_text block) # block_pieces blks [])"

definition heading_text :: "Section \<Rightarrow> string" where
  "heading_text s =
     replicate (nat (level (section_of s))) CHR ''#'' @ '' '' @ title (section_of s)"

definition sec_pieces :: "Section \<Rightarrow> piece list" where
  "sec_pieces s =
     [Comment (''<!-- section: '' @ title (section_of s) @ '' -->''), Heading (heading_text s)]"

definition content_pieces :: "ExtractedContent \<Rightarrow> piece list" where
  "content_pieces c =
     block_pieces (reading_order_blocks c) [] @ map (\<lambda>t. TableRows (rows t)) (tables c)"

definition page_pieces :: "Section list \<Rightarrow> PageContent \<Rightarrow> piece list" where
  "page_pieces secs p =
     concat (map sec_pieces (find_sections_on_page secs (page_number p)))
       @ content_pieces (content p)"

text \<open>
  The text of a page after its marker, up to the next marker or the end: two line feeds
  before every piece, then the line feeds \<open>t\<close> that come before the next marker or the
  end. The text of the pages, and the chunks into which it is split.
\<close>

definition page_marker :: "int \<Rightarrow> string" where
  "page_marker n = ''<!-- page: '' @ str_int n @ '' -->''"

definition chunk_of :: "piece list \<Rightarrow> string \<Rightarrow> string" where
  "chunk_of atoms t =
     concat (map (\<lambda>a. ''\<newline>'' @ ''\<newline>'' @ piece_text a) atoms) @ CHR ''\<newline>'' # t"

fun pages_text :: "Section list \<Rightarrow> PageContent list \<Rightarrow> string" where
  "pages_text secs [] = []"
| "pages_text secs [p] = page_marker (page_number p) @ chunk_of (page_pieces secs p) []"
| "pages_text secs (p # q # ps) =
     page_marker (page_number p) @ chunk_of (page_pieces secs p) ''\<newline>''
       @ pages_text secs (q # ps)"

fun page_chunks :: "Section list \<Rightarrow> PageContent list \<Rightarrow> (int \<times> string) list" where
  "page_chunks secs [] = []"
| "page_chunks secs [p] = [(page_number p, chunk_of (page_pieces secs p) [])]"
| "page_chunks secs (p # q # ps) =
     (page_number p, chunk_of (page_pieces secs p) ''\<newline>'') # page_chunks secs (q # ps)"

text \<open>Every \<open><\<close> of a text is followed by one of the strings \<open>A\<close>.\<close>

fun lt_starts :: "string list \<Rightarrow> string \<Rightarrow> bool" where
  "lt_starts A [] = True"
| "lt_starts A (c # cs) =
     ((c = CHR ''<'' \<longrightarrow> list_ex (\<lambda>a. startswith cs a) A) \<and> lt_starts A cs)"


section \<open>The documents that come back\<close>

text \<open>The sections of a document and their subsections, each before its subsections.\<close>

fun flatten :: "Section \<Rightarrow> Section list" where
  "flatten (Section (DocumentSection t l c ps pe subs)) =
     Section (DocumentSection t l c ps pe subs) # concat (map flatten subs)"

definition all_sections_of :: "Section list \<Rightarrow> Section list" where
  "all_sections_of secs = concat (map flatten secs)"

text \<open>
  A list item is at a canonical position: 10 and 30 for each level. A block is a
  paragraph or a list item with a text that comes back as it is.
\<close>

definition canonical_x :: "TextBlock \<Rightarrow> bool" where
  "canonical_x b =
     (10 \<le> bbox_x0 b \<and> of_int \<lfloor>(bbox_x0 b - 10) / 30\<rfloor> * 30 = bbox_x0 b - 10)"

definition wf_block :: "TextBlock \<Rightarrow> bool" where
  "wf_block b =
     (if block_type b = ''list_item'' then plain_item (block_text b) \<and> canonical_x b
      else block_type b = ''paragraph'' \<and> plain_paragraph (block_text b))"

text \<open>
  A page: its number is not negative; its blocks and tables are as above; without blocks
  it has no body text; and when no section starts on it and it begins with list items,
  the first of them is the leftmost of its run.
\<close>

definition wf_page :: "Section list \<Rightarrow> PageContent \<Rightarrow> bool" where
  "wf_page secs p =
     (let blks = reading_order_blocks (content p)
      in 0 \<le> page_number p
         \<and> list_all wf_block blks
         \<and> list_all (\<lambda>t. clean_table (rows t)) (tables (content p))
         \<and> (blks = [] \<longrightarrow> body_text (content p) = [])
         \<and> (find_sections_on_page secs (page_number p) = [] \<longrightarrow>
              list_all (\<lambda>b. bbox_x0 (hd blks) \<le> bbox_x0 b)
                (takeWhile (\<lambda>b. block_type b = ''list_item'') blks)))"

definition wf_section :: "Section \<Rightarrow> bool" where
  "wf_section s =
     (alnum_title (title (section_of s)) \<and> 1 \<le> level (section_of s)
      \<and> level (section_of s) \<le> 6 \<and> section_content (section_of s) = [])"

text \<open>
  The blocks that come back for the blocks of a page: a paragraph without its position,
  the list items of a run moved so that the leftmost is at 10.
\<close>

definition shift_run :: "TextBlock list \<Rightarrow> TextBlock list" where
  "shift_run items =
     (case items of
        [] \<Rightarrow> []
      | first # others \<Rightarrow>
          (let base_x = fold min (map bbox_x0 others) (bbox_x0 first)
           in map (\<lambda>item. \<lparr>block_text = block_text item,
                            bbox = (10 + (bbox_x0 item - base_x), 0, 0, 0),
                            block_type = ''list_item''\<rparr>)
                items))"

fun restored_blocks :: "TextBlock list \<Rightarrow> TextBlock list \<Rightarrow> TextBlock list" where
  "restored_blocks [] list_items = shift_run list_items"
| "restored_blocks (block # blks) list_items =
     (if block_type block = ''list_item''
      then restored_blocks blks (list_items @ [block])
      else shift_run list_items
             @ \<lparr>block_text = block_text block, bbox = (0, 0, 0, 0),
                block_type = ''paragraph''\<rparr>
             # restored_blocks blks [])"

definition heading_block :: "Section \<Rightarrow> TextBlock" where
  "heading_block s =
     \<lparr>block_text = heading_text s, bbox = (0, 0, 0, 0), block_type = ''heading''\<rparr>"

definition restored_page :: "Section list \<Rightarrow> PageContent \<Rightarrow> PageContent" where
  "restored_page secs p =
     (let blks = map heading_block (find_sections_on_page secs (page_number p))
                   @ restored_blocks (reading_order_blocks (content p)) []
      in \<lparr>page_number = page_number p, classification = NATIVE_TEXT,
          content =
            \<lparr>body_text =
               join (''\<newline>'' @ ''\<newline>'')
                 (map block_text (filter (\<lambda>b. block_type b = ''paragraph'') blks)),
             headers = [], footers = [], tables = tables (content p),
             reading_order_blocks = blks\<rparr>,
          ocr_confidence = None\<rparr>)"

text \<open>A piece that the parser reads back as it is, when blank lines are around it.\<close>

definition solid :: "piece \<Rightarrow> bool" where
  "solid a = (good_piece a \<and> a \<noteq> Blank \<and> plain_lines a \<and> clean_end a)"

text \<open>The lines that a section adds to its page.\<close>

definition section_lines :: "Section \<Rightarrow> string list" where
  "section_lines s =
     [[], ''<!-- section: '' @ title (section_of s) @ '' -->'', [], heading_text s]"


section \<open>The order of the sections in the hierarchy\<close>

text \<open>
  The addresses below an address, each before the addresses below it, with the bound of
  \<open>section_tree\<close> on the nested levels. What is compared of two sections: title, level
  and first page.
\<close>

fun addr_pre :: "nat \<Rightarrow> heap \<Rightarrow> addr \<Rightarrow> addr list" where
  "addr_pre 0 h a = [a]"
| "addr_pre (Suc depth) h a = a # concat (map (addr_pre depth h) (subsections (h ! a)))"

definition sec_key :: "'r DocumentSection \<Rightarrow> string \<times> int \<times> int" where
  "sec_key x = (title x, level x, page_start x)"

text \<open>
  In the heap of the builder, after \<open>k\<close> sections, a subsection has a larger address than
  its parent, below \<open>k\<close>. A chain goes from a section to its last subsection, and on in
  the same way.
\<close>

definition ordered :: "heap \<Rightarrow> nat \<Rightarrow> bool" where
  "ordered h k =
     (k \<le> length h \<and> (\<forall>a < length h. \<forall>b \<in> set (subsections (h ! a)). a < b \<and> b < k))"

fun chain :: "heap \<Rightarrow> addr \<Rightarrow> addr list \<Rightarrow> bool" where
  "chain h a [] = True"
| "chain h a (b # path) =
     (subsections (h ! a) \<noteq> [] \<and> last (subsections (h ! a)) = b \<and> chain h b path)"

text \<open>The heap after a section is attached to its parent.\<close>

definition attach :: "heap \<Rightarrow> addr \<Rightarrow> addr \<Rightarrow> heap" where
  "attach h parent section =
     (let h1 = h[parent := append_subsection (h ! parent) section];
          h2 = (if page_end (h1 ! section) > page_end (h1 ! parent)
                then h1[parent := set_page_end (h1 ! parent) (page_end (h1 ! section))]
                else h1)
      in h2)"

text \<open>
  What holds in the loop of the builder before the section at \<open>k\<close>: the sections so far
  are in \<open>root\<close> and below it in their order, and the stack is the chain from the last
  element of \<open>root\<close>.
\<close>

definition build_inv :: "heap \<Rightarrow> addr list \<Rightarrow> addr list \<Rightarrow> nat \<Rightarrow> bool" where
  "build_inv h roots stack k =
     (ordered h k
      \<and> (\<forall>a. k \<le> a \<and> a < length h \<longrightarrow> subsections (h ! a) = [])
      \<and> concat (map (addr_pre (length h) h) roots) = [0..<k]
      \<and> (if roots = [] then stack = []
         else \<exists>path. rev stack = last roots # path \<and> chain h (last roots) path))"

section \<open>Two documents\<close>

text \<open>
  A document of two pages with a section and a subsection, paragraphs, nested list items
  and a table; and a document whose only block is a paragraph that reads like a list
  item.
\<close>

definition rt_doc :: Document where
  "rt_doc =
     \<lparr>sections =
        [Section (DocumentSection ''Intro'' 1 [] 1 2
           [Section (DocumentSection ''Sub'' 2 [] 2 2 [])])],
      pages =
        [\<lparr>page_number = 1, classification = MIXED,
          content =
            \<lparr>body_text = ''A paragraph. Last.'', headers = [''head''], footers = [],
             tables = [\<lparr>rows = [[''A'', ''B''], [''1'', ''2'']]\<rparr>],
             reading_order_blocks =
               [\<lparr>block_text = ''A paragraph.'', bbox = (72, 100, 500, 120),
                 block_type = ''paragraph''\<rparr>,
                \<lparr>block_text = ''one'', bbox = (40, 130, 500, 140), block_type = ''list_item''\<rparr>,
                \<lparr>block_text = ''two'', bbox = (70, 150, 500, 160), block_type = ''list_item''\<rparr>,
                \<lparr>block_text = ''three'', bbox = (40, 170, 500, 180), block_type = ''list_item''\<rparr>,
                \<lparr>block_text = ''Last.'', bbox = (72, 190, 500, 200),
                 block_type = ''paragraph''\<rparr>]\<rparr>,
          ocr_confidence = Some (1 / 2)\<rparr>,
         \<lparr>page_number = 2, classification = NATIVE_TEXT,
          content =
            \<lparr>body_text = [], headers = [], footers = [], tables = [],
             reading_order_blocks =
               [\<lparr>block_text = ''deep'', bbox = (40, 100, 500, 120), block_type = ''list_item''\<rparr>,
                \<lparr>block_text = ''top'', bbox = (10, 130, 500, 140), block_type = ''list_item''\<rparr>]\<rparr>,
          ocr_confidence = None\<rparr>]\<rparr>"

definition dash_doc :: Document where
  "dash_doc =
     \<lparr>sections = [],
      pages =
        [\<lparr>page_number = 1, classification = NATIVE_TEXT,
          content =
            \<lparr>body_text = [], headers = [], footers = [], tables = [],
             reading_order_blocks =
               [\<lparr>block_text = ''- x'', bbox = (0, 0, 0, 0), block_type = ''paragraph''\<rparr>]\<rparr>,
          ocr_confidence = None\<rparr>]\<rparr>"
section \<open>Example inputs\<close>

text \<open>
  A file of three pages, read in chunks of two. Page 1 is native text with one heading
  block; page 2 cannot be loaded; page 3 is scanned, and its OCR confidence 0.5 is below
  the threshold 0.7. Pages and images are numbers here.
\<close>

definition example_doc :: "nat pdf_document" where
  "example_doc =
     \<lparr>page_count = 3,
      load_page = (\<lambda>i. if i = 1 then Inl (Exception ''bad page'') else Inr (nat i))\<rparr>"

definition example_env :: "(nat, nat) environment" where
  "example_env =
     \<lparr>pdf_path = ''a.pdf'',
      path_exists = True,
      open_pdf = Inr example_doc,
      classify = (\<lambda>p. if p = 0 then Inr NATIVE_TEXT else Inr SCANNED),
      extract_text = (\<lambda>p. Inr \<lparr>body_text = ''Intro'', headers = [], footers = [], tables = [],
         reading_order_blocks =
           [\<lparr>block_text = ''# Intro'', bbox = (0, 0, 10, 10), block_type = ''heading''\<rparr>]\<rparr>),
      render_page_to_image = (\<lambda>p. Inr p),
      ocr_page = (\<lambda>image. Inr \<lparr>ocr_text = ''scan'', confidence = 1 / 2, blocks = []\<rparr>),
      monotonic_start = 10,
      monotonic_end = 25 / 2\<rparr>"

definition example_config :: ProcessingConfig where
  "example_config = \<lparr>chunk_size = 2, ocr_threshold = 7 / 10, verbose = False\<rparr>"


section \<open>Chunk ranges partition the pages\<close>

lemma py_range_shift:
  "0 < c \<Longrightarrow> py_range i n c = map (\<lambda>k. i + int k * c) [0..<nat ((n - i + c - 1) div c)]"
proof (induction i n c rule: py_range.induct)
  case (1 i stop step)
  show ?case
  proof (cases "i < stop")
    case False
    with "1.prems" have "\<not> 0 < (stop - i + step - 1) div step"
      by (simp add: pos_imp_zdiv_pos_iff)
    then have "(stop - i + step - 1) div step \<le> 0"
      by simp
    with False "1.prems" show ?thesis
      by (simp add: py_range.simps [of i stop step])
  next
    case True
    let ?m = "nat ((stop - (i + step) + step - 1) div step)"
    have d: "(stop - i + step - 1) div step = (stop - (i + step) + step - 1) div step + 1"
    proof -
      have "stop - i + step - 1 = (stop - (i + step) + step - 1) + 1 * step" by simp
      then show ?thesis using "1.prems" by (metis div_add_self2 less_numeral_extra(3) mult_1)
    qed
    have nn: "0 \<le> (stop - (i + step) + step - 1) div step"
      using True "1.prems" by (simp add: pos_imp_zdiv_nonneg_iff)
    have len: "nat ((stop - i + step - 1) div step) = Suc ?m"
      using d nn by simp
    have IH: "py_range (i + step) stop step = map (\<lambda>k. i + step + int k * step) [0..<?m]"
      using "1.IH" True "1.prems" by simp
    have "map (\<lambda>k. i + int k * step) [0..<Suc ?m]
        = i # map (\<lambda>k. i + step + int k * step) [0..<?m]"
      by (simp add: upt_conv_Cons map_Suc_upt [symmetric] algebra_simps del: upt_Suc)
    with IH len True "1.prems" show ?thesis
      by (simp add: py_range.simps [of i stop step])
  qed
qed

lemma lt_div_iff:
  assumes "0 < (c::int)"
  shows "k < (n + c - 1) div c \<longleftrightarrow> k * c < n"
proof -
  have e: "n + c - 1 - k * c = (n + c - 1) + c * (- k)" by simp
  have "c \<noteq> 0" using assms by simp
  then have "((n + c - 1) + c * (- k)) div c = (- k) + (n + c - 1) div c"
    by (rule div_mult_self2)
  with e have "(n + c - 1 - k * c) div c = (n + c - 1) div c - k"
    by (simp add: mult.commute)
  then have "k < (n + c - 1) div c \<longleftrightarrow> 0 < (n + c - 1 - k * c) div c"
    by simp
  also have "\<dots> \<longleftrightarrow> c \<le> n + c - 1 - k * c"
    using assms by (rule pos_imp_zdiv_pos_iff)
  also have "\<dots> \<longleftrightarrow> k * c < n"
    by auto
  finally show ?thesis .
qed

lemma ceil_div:
  assumes "0 < (c::int)"
  shows "\<lceil>real_of_int n / real_of_int c\<rceil> = (n + c - 1) div c"
proof -
  have le: "\<lceil>real_of_int n / real_of_int c\<rceil> \<le> k \<longleftrightarrow> (n + c - 1) div c \<le> k" for k
  proof -
    have "\<lceil>real_of_int n / real_of_int c\<rceil> \<le> k \<longleftrightarrow> real_of_int n / real_of_int c \<le> real_of_int k"
      by (rule ceiling_le_iff)
    also have "\<dots> \<longleftrightarrow> real_of_int n \<le> real_of_int k * real_of_int c"
      using assms by (simp add: pos_divide_le_eq)
    also have "\<dots> \<longleftrightarrow> n \<le> k * c"
      by (simp only: of_int_mult [symmetric] of_int_le_iff)
    also have "\<dots> \<longleftrightarrow> (n + c - 1) div c \<le> k"
      using lt_div_iff [OF assms, of k n] by auto
    finally show ?thesis .
  qed
  show ?thesis
  proof (rule antisym)
    show "\<lceil>real_of_int n / real_of_int c\<rceil> \<le> (n + c - 1) div c"
      using le [of "(n + c - 1) div c"] by simp
    show "(n + c - 1) div c \<le> \<lceil>real_of_int n / real_of_int c\<rceil>"
      using le [of "\<lceil>real_of_int n / real_of_int c\<rceil>"] by simp
  qed
qed

lemma iter_chunks_form:
  assumes "0 < C"
  shows "iter_chunks (Inr N) C =
     Inr (map (\<lambda>k. \<lparr>range_start = int k * C, range_end = min (int k * C + C) N\<rparr>)
            [0..<nat ((N + C - 1) div C)])"
  using assms by (simp add: iter_chunks_def py_range_shift [of C 0 N] o_def)

text \<open>
  Claim C4. For a page count \<open>N \<ge> 0\<close> and a chunk size \<open>C > 0\<close> the iterator returns
  \<open>\<lceil>N / C\<rceil>\<close> ranges; the first starts at 0, each later one starts where the one
  before it ends, the last ends at \<open>N\<close>; each range is non-empty and at most \<open>C\<close> pages
  long; the ranges are pairwise disjoint and their union is \<open>[0, N)\<close>. For \<open>C \<le> 0\<close> the
  iterator raises \<open>ValueError\<close>, whatever the page count (or the error of reading it) is.
\<close>

theorem iter_chunks_partition:
  "(0 \<le> N \<and> 0 < C \<longrightarrow>
      (\<exists>rs. iter_chunks (Inr N) C = Inr rs
         \<and> int (length rs) = \<lceil>real_of_int N / real_of_int C\<rceil>
         \<and> (\<forall>k<length rs. range_start (rs ! k) = (if k = 0 then 0 else range_end (rs ! (k - 1))))
         \<and> (rs \<noteq> [] \<longrightarrow> range_end (last rs) = N)
         \<and> (\<forall>k<length rs. range_start (rs ! k) < range_end (rs ! k)
                \<and> range_end (rs ! k) - range_start (rs ! k) \<le> C)
         \<and> (\<Union>r\<in>set rs. {range_start r..<range_end r}) = {0..<N}
         \<and> (\<forall>i<length rs. \<forall>j<length rs. i \<noteq> j \<longrightarrow>
                {range_start (rs ! i)..<range_end (rs ! i)}
                  \<inter> {range_start (rs ! j)..<range_end (rs ! j)} = {})))
   \<and> (C \<le> 0 \<longrightarrow>
        iter_chunks pc C = Inl (ValueError (''chunk_size must be positive, got '' @ str_int C)))"
proof (intro conjI impI)
  assume "C \<le> 0"
  then show "iter_chunks pc C = Inl (ValueError (''chunk_size must be positive, got '' @ str_int C))"
    by (simp add: iter_chunks_def)
next
  assume NC: "0 \<le> N \<and> 0 < C"
  then have C: "0 < C" and N: "0 \<le> N" by simp_all
  define m where "m = nat ((N + C - 1) div C)"
  define rs where "rs = map (\<lambda>k. \<lparr>range_start = int k * C, range_end = min (int k * C + C) N\<rparr>) [0..<m]"
  have run: "iter_chunks (Inr N) C = Inr rs"
    unfolding rs_def m_def using C by (rule iter_chunks_form)
  have len: "length rs = m" by (simp add: rs_def)
  have nn: "0 \<le> (N + C - 1) div C"
    using C N by (simp add: pos_imp_zdiv_nonneg_iff)
  have lt: "k < m \<longleftrightarrow> int k * C < N" for k
    using lt_div_iff [OF C, of "int k" N] by (simp add: m_def zless_nat_eq_int_zless)
  have st: "range_start (rs ! k) = int k * C" if "k < m" for k
    using that by (simp add: rs_def)
  have en: "range_end (rs ! k) = min (int k * C + C) N" if "k < m" for k
    using that by (simp add: rs_def)
  have count: "int (length rs) = \<lceil>real_of_int N / real_of_int C\<rceil>"
    using nn by (simp add: len m_def ceil_div [OF C])
  have contiguous: "\<forall>k<length rs. range_start (rs ! k) = (if k = 0 then 0 else range_end (rs ! (k - 1)))"
  proof (intro allI impI)
    fix k assume k: "k < length rs"
    show "range_start (rs ! k) = (if k = 0 then 0 else range_end (rs ! (k - 1)))"
    proof (cases k)
      case 0
      with k show ?thesis by (simp add: st len)
    next
      case (Suc j)
      with k have j: "j < m" and kk: "k < m" by (simp_all add: len)
      from kk have "int k * C < N" by (simp add: lt)
      with Suc have "min (int j * C + C) N = int k * C"
        by (simp add: algebra_simps)
      with Suc j kk show ?thesis by (simp add: st en)
    qed
  qed
  have last_end: "rs \<noteq> [] \<longrightarrow> range_end (last rs) = N"
  proof
    assume "rs \<noteq> []"
    then have pos: "0 < m" by (simp add: rs_def)
    then have "last rs = rs ! (m - 1)"
      using \<open>rs \<noteq> []\<close> by (simp add: last_conv_nth len)
    moreover have "N \<le> int m * C" using lt [of m] by simp
    then have "min (int (m - 1) * C + C) N = N"
      using pos by (simp add: algebra_simps of_nat_diff)
    ultimately show "range_end (last rs) = N"
      using pos by (simp add: en)
  qed
  have sizes: "\<forall>k<length rs. range_start (rs ! k) < range_end (rs ! k)
                \<and> range_end (rs ! k) - range_start (rs ! k) \<le> C"
  proof (intro allI impI)
    fix k assume "k < length rs"
    then have k: "k < m" by (simp add: len)
    then have "int k * C < N" by (simp add: lt)
    with k C show "range_start (rs ! k) < range_end (rs ! k)
                \<and> range_end (rs ! k) - range_start (rs ! k) \<le> C"
      by (simp add: st en)
  qed
  have cover: "(\<Union>r\<in>set rs. {range_start r..<range_end r}) = {0..<N}"
  proof (rule set_eqI)
    fix x
    show "x \<in> (\<Union>r\<in>set rs. {range_start r..<range_end r}) \<longleftrightarrow> x \<in> {0..<N}"
    proof
      assume "x \<in> (\<Union>r\<in>set rs. {range_start r..<range_end r})"
      then obtain k where k: "k < m" and x: "int k * C \<le> x" "x < min (int k * C + C) N"
        by (auto simp: rs_def)
      have "0 \<le> int k * C" using C by simp
      with x(1) have "0 \<le> x" by linarith
      with x show "x \<in> {0..<N}" by simp
    next
      assume x: "x \<in> {0..<N}"
      define k where "k = nat (x div C)"
      have k0: "0 \<le> x div C" using x C by (simp add: pos_imp_zdiv_nonneg_iff)
      then have ik: "int k = x div C" by (simp add: k_def)
      have dm: "x = int k * C + x mod C" by (simp add: ik)
      have md: "0 \<le> x mod C" "x mod C < C" using C by simp_all
      have lo: "int k * C \<le> x" using dm md by linarith
      have hi: "x < int k * C + C" using dm md by linarith
      from lo x have "int k * C < N" by simp
      then have "k < m" by (simp add: lt)
      moreover from hi x have "x < min (int k * C + C) N" by simp
      ultimately show "x \<in> (\<Union>r\<in>set rs. {range_start r..<range_end r})"
        using lo by (auto simp: rs_def intro!: bexI [where x = k])
    qed
  qed
  have apart: "{range_start (rs ! i)..<range_end (rs ! i)}
       \<inter> {range_start (rs ! j)..<range_end (rs ! j)} = {}" if "i < j" "j < m" for i j
  proof -
    from that have i: "i < m" by simp
    from that have "int i + 1 \<le> int j" by simp
    then have "(int i + 1) * C \<le> int j * C"
      using C by (simp only: mult_right_mono less_imp_le)
    then have "min (int i * C + C) N \<le> int j * C"
      by (simp add: algebra_simps)
    then show ?thesis
      using i that by (auto simp: st en)
  qed
  have disjoint: "\<forall>i<length rs. \<forall>j<length rs. i \<noteq> j \<longrightarrow>
                {range_start (rs ! i)..<range_end (rs ! i)}
                  \<inter> {range_start (rs ! j)..<range_end (rs ! j)} = {}"
  proof (intro allI impI)
    fix i j assume "i < length rs" "j < length rs" "i \<noteq> j"
    then consider "i < j" "j < m" | "j < i" "i < m"
      using nat_neq_iff [of i j] by (auto simp: len)
    then show "{range_start (rs ! i)..<range_end (rs ! i)}
                  \<inter> {range_start (rs ! j)..<range_end (rs ! j)} = {}"
    proof cases
      case 1 then show ?thesis by (rule apart)
    next
      case 2 then show ?thesis using apart [of j i] by (simp add: Int_commute)
    qed
  qed
  from run count contiguous last_end sizes cover disjoint
  show "\<exists>rs. iter_chunks (Inr N) C = Inr rs
         \<and> int (length rs) = \<lceil>real_of_int N / real_of_int C\<rceil>
         \<and> (\<forall>k<length rs. range_start (rs ! k) = (if k = 0 then 0 else range_end (rs ! (k - 1))))
         \<and> (rs \<noteq> [] \<longrightarrow> range_end (last rs) = N)
         \<and> (\<forall>k<length rs. range_start (rs ! k) < range_end (rs ! k)
                \<and> range_end (rs ! k) - range_start (rs ! k) \<le> C)
         \<and> (\<Union>r\<in>set rs. {range_start r..<range_end r}) = {0..<N}
         \<and> (\<forall>i<length rs. \<forall>j<length rs. i \<noteq> j \<longrightarrow>
                {range_start (rs ! i)..<range_end (rs ! i)}
                  \<inter> {range_start (rs ! j)..<range_end (rs ! j)} = {})"
    by blast
qed

lemma str_int_0: "str_int 0 = ''0''"
  by code_simp

lemma py_range_0_7_3: "py_range 0 7 3 = [0, 3, 6]"
  by code_simp

lemma iter_chunks_7_3:
  "iter_chunks (Inr 7) 3 =
     Inr [\<lparr>range_start = 0, range_end = 3\<rparr>, \<lparr>range_start = 3, range_end = 6\<rparr>,
          \<lparr>range_start = 6, range_end = 7\<rparr>]"
  by (simp add: iter_chunks_def py_range_0_7_3)

theorem iter_chunks_partition_witness:
  "(0::int) \<le> 7 \<and> (0::int) < 3
   \<and> (\<exists>rs. iter_chunks (Inr 7) 3 = Inr rs
         \<and> rs = [\<lparr>range_start = 0, range_end = 3\<rparr>, \<lparr>range_start = 3, range_end = 6\<rparr>,
                  \<lparr>range_start = 6, range_end = 7\<rparr>]
         \<and> int (length rs) = \<lceil>real_of_int 7 / real_of_int 3\<rceil>
         \<and> range_end (last rs) = 7
         \<and> (\<Union>r\<in>set rs. {range_start r..<range_end r}) = {0..<7})
   \<and> (0::int) \<le> 0
   \<and> iter_chunks (Inl (FileNotFoundError ''no such file'')) 0
        = Inl (ValueError ''chunk_size must be positive, got 0'')"
proof -
  have p1: "(0::int) \<le> 7" and p2: "(0::int) < 3" by simp_all
  from p1 p2 have pre: "(0::int) \<le> 7 \<and> (0::int) < 3" by (rule conjI)
  note ok = iter_chunks_partition [of 7 3 "Inr 7", THEN conjunct1, rule_format, OF pre]
  from ok obtain rs where rs: "iter_chunks (Inr 7) 3 = Inr rs"
    and n: "int (length rs) = \<lceil>real_of_int 7 / real_of_int 3\<rceil>"
    and l: "rs \<noteq> [] \<longrightarrow> range_end (last rs) = 7"
    and u: "(\<Union>r\<in>set rs. {range_start r..<range_end r}) = {0..<7}"
    by (elim exE conjE) (rule that)
  from rs have v: "rs = [\<lparr>range_start = 0, range_end = 3\<rparr>, \<lparr>range_start = 3, range_end = 6\<rparr>,
                  \<lparr>range_start = 6, range_end = 7\<rparr>]"
    by (simp add: iter_chunks_7_3)
  have z: "(0::int) \<le> 0" by simp
  note bad = iter_chunks_partition [of 7 0 "Inl (FileNotFoundError ''no such file'')",
      THEN conjunct2, rule_format, OF z]
  from bad have e: "iter_chunks (Inl (FileNotFoundError ''no such file'')) 0
        = Inl (ValueError ''chunk_size must be positive, got 0'')"
    by (simp add: str_int_0)
  from l v have le: "range_end (last rs) = 7" by simp
  from p1 p2 rs v n le u z e show ?thesis
    by (intro conjI exI [of _ rs]) assumption+
qed


section \<open>Merging native and OCR blocks\<close>










section \<open>The two hierarchy builders\<close>

lemma md_pop_stack_eq: "md_pop_stack h stack s = pop_stack h stack s"
  by (induction stack) simp_all

lemma md_build_loop_eq: "md_build_loop h roots stack flat = build_loop h roots stack flat"
  by (induction flat arbitrary: h roots stack)
     (simp_all add: md_pop_stack_eq Let_def split: list.split)

text \<open>
  Claim C6. On every heap of sections and every list of section addresses, the builder of
  the processor and the builder of the converter leave the same heap (titles, levels,
  contents, page ranges and subsection lists of all sections) and return the same roots;
  so they return the same forest.
\<close>

theorem builders_equal:
  "md_build_section_hierarchy h flat_sections = build_section_hierarchy h flat_sections
   \<and> forest (md_build_section_hierarchy h flat_sections)
       = forest (build_section_hierarchy h flat_sections)"
  by (simp add: md_build_section_hierarchy_def build_section_hierarchy_def md_build_loop_eq)

lemma three_levels_heap:
  "build_section_hierarchy
     [DocumentSection ''A'' 1 [] 1 1 [], DocumentSection ''B'' 2 [] 2 2 [],
      DocumentSection ''C'' 3 [] 3 3 []] [0, 1, 2]
   = ([DocumentSection ''A'' 1 [] 1 2 [1], DocumentSection ''B'' 2 [] 2 3 [2],
       DocumentSection ''C'' 3 [] 3 3 []], [0])"
  by code_simp

theorem builders_equal_witness:
  "md_build_section_hierarchy
     [DocumentSection ''A'' 1 [] 1 1 [], DocumentSection ''B'' 2 [] 2 2 [],
      DocumentSection ''C'' 3 [] 3 3 []] [0, 1, 2]
   = ([DocumentSection ''A'' 1 [] 1 2 [1], DocumentSection ''B'' 2 [] 2 3 [2],
       DocumentSection ''C'' 3 [] 3 3 []], [0])"
proof -
  have "md_build_section_hierarchy
     [DocumentSection ''A'' 1 [] 1 1 [], DocumentSection ''B'' 2 [] 2 2 [],
      DocumentSection ''C'' 3 [] 3 3 []] [0, 1, 2]
   = build_section_hierarchy
     [DocumentSection ''A'' 1 [] 1 1 [], DocumentSection ''B'' 2 [] 2 2 [],
      DocumentSection ''C'' 3 [] 3 3 []] [0, 1, 2]"
    by (rule builders_equal [THEN conjunct1])
  also have "\<dots> = ([DocumentSection ''A'' 1 [] 1 2 [1], DocumentSection ''B'' 2 [] 2 3 [2],
       DocumentSection ''C'' 3 [] 3 3 []], [0])"
    by (rule three_levels_heap)
  finally show ?thesis .
qed

text \<open>
  Claim C2 fails on the code. Sections \<open>A\<close> (level 1, page 1), \<open>B\<close> (level 2, page 2) and
  \<open>C\<close> (level 3, page 3), in this order: \<open>B\<close> is attached to \<open>A\<close> while its \<open>page_end\<close>
  is still 2, so \<open>A\<close> ends at 2; then \<open>C\<close> is attached to \<open>B\<close>, which ends at 3 from
  then on; \<open>A\<close> is not touched again. In the forest returned, the roots ends on page 2 and
  its descendants \<open>B\<close> and \<open>C\<close> end on page 3.
\<close>

theorem page_end_not_transitive:
  "forest (build_section_hierarchy
     [DocumentSection ''A'' 1 [] 1 1 [], DocumentSection ''B'' 2 [] 2 2 [],
      DocumentSection ''C'' 3 [] 3 3 []] [0, 1, 2])
   = [Section (DocumentSection ''A'' 1 [] 1 2
        [Section (DocumentSection ''B'' 2 [] 2 3
           [Section (DocumentSection ''C'' 3 [] 3 3 [])])])]
   \<and> forest (md_build_section_hierarchy
     [DocumentSection ''A'' 1 [] 1 1 [], DocumentSection ''B'' 2 [] 2 2 [],
      DocumentSection ''C'' 3 [] 3 3 []] [0, 1, 2])
   = [Section (DocumentSection ''A'' 1 [] 1 2
        [Section (DocumentSection ''B'' 2 [] 2 3
           [Section (DocumentSection ''C'' 3 [] 3 3 [])])])]"
  by code_simp


section \<open>The pipeline visits every page once\<close>

lemma py_range_1_append:
  "a \<le> b \<Longrightarrow> b \<le> c \<Longrightarrow> py_range a b 1 @ py_range b c 1 = py_range a c 1"
proof (induction "nat (b - a)" arbitrary: a)
  case 0
  then have "a = b" by simp
  then show ?case by (simp add: py_range.simps [of b b 1])
next
  case (Suc n)
  then have lt: "a < b" and n: "n = nat (b - (a + 1))" and le: "a + 1 \<le> b"
    by simp_all
  from lt Suc.prems have "a < c" by simp
  moreover from Suc.hyps(1) [OF n le Suc.prems(2)]
  have "py_range (a + 1) b 1 @ py_range b c 1 = py_range (a + 1) c 1" .
  ultimately show ?case
    using lt by (simp add: py_range.simps [of a b 1] py_range.simps [of a c 1])
qed

lemma chunk_pages_concat:
  assumes "0 < C"
  shows "i \<le> N \<Longrightarrow>
     concat (map (\<lambda>s. py_range s (min (s + C) N) 1) (py_range i N C)) = py_range i N 1"
  using assms
proof (induction i N C rule: py_range.induct)
  case (1 i stop step)
  show ?case
  proof (cases "i < stop")
    case False
    then have "py_range i stop step = []" and "py_range i stop 1 = []"
      by (simp_all add: py_range.simps [of i stop step] py_range.simps [of i stop 1])
    then show ?thesis by simp
  next
    case True
    show ?thesis
    proof (cases "i + step \<le> stop")
      case le: True
      with True "1.IH" "1.prems"
      have "concat (map (\<lambda>s. py_range s (min (s + step) stop) 1) (py_range (i + step) stop step))
          = py_range (i + step) stop 1"
        by simp
      moreover have "py_range i (i + step) 1 @ py_range (i + step) stop 1 = py_range i stop 1"
        using le "1.prems" by (intro py_range_1_append) simp_all
      moreover have "min (i + step) stop = i + step" using le by simp
      ultimately show ?thesis
        using True "1.prems" by (simp add: py_range.simps [of i stop step])
    next
      case gt: False
      then have "py_range (i + step) stop step = []"
        by (simp add: py_range.simps [of "i + step" stop step])
      moreover have "min (i + step) stop = stop" using gt by simp
      ultimately show ?thesis
        using True "1.prems" by (simp add: py_range.simps [of i stop step])
    qed
  qed
qed

lemma process_pages_append:
  "process_pages env config doc (ms @ ns) st
     = process_pages env config doc ns (process_pages env config doc ms st)"
  by (induction ms arbitrary: st) simp_all

lemma process_chunks_pages:
  "open_pdf env = Inr doc \<Longrightarrow>
   process_chunks env config rs st =
     Inr (process_pages env config doc
            (concat (map (\<lambda>r. py_range (range_start r) (range_end r) 1) rs)) st)"
  by (induction rs arbitrary: st) (simp_all add: process_pages_append)

lemma process_pages_result:
  "process_pages env config doc ns (warns, pgs, skipped) =
     (warns @ concat (map (page_warnings env config doc) ns),
      pgs @ concat (map (page_added env config doc) ns),
      skipped + int (length (filter (page_failed env config doc) ns)))"
proof (induction ns arbitrary: warns pgs skipped)
  case Nil
  show ?case by simp
next
  case (Cons n ns)
  show ?case
  proof (cases "try_page env config doc n")
    case (Inl exc)
    then show ?thesis
      by (simp add: process_page_def page_warnings_def page_added_def page_failed_def Cons.IH)
  next
    case (Inr r)
    then show ?thesis
      by (cases r)
        (simp add: process_page_def page_warnings_def page_added_def page_failed_def Cons.IH)
  qed
qed

lemma added_plus_failed:
  "int (length (concat (map (page_added env config doc) ns)))
     + int (length (filter (page_failed env config doc) ns)) = int (length ns)"
  by (induction ns) (auto simp: page_added_def page_failed_def split: sum.splits)

lemma length_py_range_1: "0 \<le> n \<Longrightarrow> int (length (py_range 0 n 1)) = n"
  by (simp add: py_range_shift)

text \<open>
  Claim C5. A run returns whenever the path exists, the file opens and the chunk size is
  positive, whatever the collaborators raise for single pages. In a run that returns, the
  page indices \<open>0, \<dots>, N - 1\<close> are handled in order, each one once: an index whose \<open>try\<close>
  body returns adds its page (numbered one more than the index) to the document and its
  low-confidence warning, if any, to the warnings; an index whose \<open>try\<close> body raises adds
  the warning with its 1-based number and the text of the exception, and counts as
  skipped. So \<open>pages_processed + pages_skipped = total_pages = N\<close>; and the processing
  time is not negative when the second reading of the monotonic clock is not before the
  first.
\<close>

theorem process_summary:
  "(path_exists env \<and> open_pdf env = Inr doc \<and> 0 < chunk_size config
      \<longrightarrow> (\<exists>document summary. process env config = Inr (document, summary)))
   \<and> (process env config = Inr (document, summary) \<and> open_pdf env = Inr doc
      \<longrightarrow> total_pages summary = int (page_count doc)
        \<and> pages_processed summary + pages_skipped summary = total_pages summary
        \<and> pages_processed summary = int (length (pages document))
        \<and> pages document
            = concat (map (\<lambda>n. case try_page env config doc n of
                                   Inl exc \<Rightarrow> [] | Inr (new_warnings, page) \<Rightarrow> [page])
                        (py_range 0 (int (page_count doc)) 1))
        \<and> warnings summary
            = concat (map (\<lambda>n. case try_page env config doc n of
                                   Inl exc \<Rightarrow> [''Corrupted/unreadable page '' @ str_int (n + 1)
                                                 @ '': '' @ str_exc exc]
                                 | Inr (new_warnings, page) \<Rightarrow> new_warnings)
                        (py_range 0 (int (page_count doc)) 1))
        \<and> pages_skipped summary
            = int (length (filter (\<lambda>n. case try_page env config doc n of
                                          Inl exc \<Rightarrow> True | Inr r \<Rightarrow> False)
                             (py_range 0 (int (page_count doc)) 1)))
        \<and> (monotonic_start env \<le> monotonic_end env
             \<longrightarrow> 0 \<le> processing_time_seconds summary))"
proof -
  have run: "process env config =
      Inr (\<lparr>sections = detect_sections (concat (map (page_added env config doc) ns)),
             pages = concat (map (page_added env config doc) ns)\<rparr>,
           \<lparr>total_pages = int (page_count doc),
            pages_processed = int (length (concat (map (page_added env config doc) ns))),
            pages_skipped = int (length (filter (page_failed env config doc) ns)),
            warnings = concat (map (page_warnings env config doc) ns),
            processing_time_seconds = monotonic_end env - monotonic_start env\<rparr>)"
    if ex: "path_exists env" and op: "open_pdf env = Inr doc" and cs: "0 < chunk_size config"
      and ns: "ns = py_range 0 (int (page_count doc)) 1"
    for ns
  proof -
    let ?N = "int (page_count doc)"
    let ?C = "chunk_size config"
    let ?rs = "map (\<lambda>start. \<lparr>range_start = start, range_end = min (start + ?C) ?N\<rparr>)
                 (py_range 0 ?N ?C)"
    have chunks: "iter_chunks (get_page_count env) ?C = Inr ?rs"
      using cs op by (simp add: iter_chunks_def get_page_count_def)
    have "concat (map (\<lambda>r. py_range (range_start r) (range_end r) 1) ?rs)
        = concat (map (\<lambda>s. py_range s (min (s + ?C) ?N) 1) (py_range 0 ?N ?C))"
      by (simp add: o_def)
    also have "\<dots> = ns"
      unfolding ns using cs by (intro chunk_pages_concat) simp_all
    finally have "process_chunks env config ?rs ([], [], 0)
        = Inr (process_pages env config doc ns ([], [], 0))"
      using process_chunks_pages [OF op, of config ?rs "([], [], 0)"] by simp
    then show ?thesis
      using ex op chunks by (simp add: process_def and_then_def process_pages_result)
  qed
  have part1: "path_exists env \<and> open_pdf env = Inr doc \<and> 0 < chunk_size config
      \<longrightarrow> (\<exists>document summary. process env config = Inr (document, summary))"
    using run by blast
  have part2: "total_pages summary = int (page_count doc)
        \<and> pages_processed summary + pages_skipped summary = total_pages summary
        \<and> pages_processed summary = int (length (pages document))
        \<and> pages document = concat (map (page_added env config doc) (py_range 0 (int (page_count doc)) 1))
        \<and> warnings summary = concat (map (page_warnings env config doc) (py_range 0 (int (page_count doc)) 1))
        \<and> pages_skipped summary
            = int (length (filter (page_failed env config doc) (py_range 0 (int (page_count doc)) 1)))
        \<and> (monotonic_start env \<le> monotonic_end env
             \<longrightarrow> 0 \<le> processing_time_seconds summary)"
    if ret: "process env config = Inr (document, summary)" and op: "open_pdf env = Inr doc"
  proof -
    from ret have ex: "path_exists env"
      by (auto simp: process_def split: if_splits)
    have cs: "0 < chunk_size config"
    proof (rule ccontr)
      assume "\<not> 0 < chunk_size config"
      then have "\<exists>e. iter_chunks (get_page_count env) (chunk_size config) = Inl e"
        by (simp add: iter_chunks_def)
      with ret ex op show False
        by (auto simp: process_def and_then_def)
    qed
    note r = run [OF ex op cs refl]
    from ret r have d: "document = \<lparr>sections = detect_sections (concat (map (page_added env config doc) (py_range 0 (int (page_count doc)) 1))),
             pages = concat (map (page_added env config doc) (py_range 0 (int (page_count doc)) 1))\<rparr>"
      and s: "summary = \<lparr>total_pages = int (page_count doc),
            pages_processed = int (length (concat (map (page_added env config doc) (py_range 0 (int (page_count doc)) 1)))),
            pages_skipped = int (length (filter (page_failed env config doc) (py_range 0 (int (page_count doc)) 1))),
            warnings = concat (map (page_warnings env config doc) (py_range 0 (int (page_count doc)) 1)),
            processing_time_seconds = monotonic_end env - monotonic_start env\<rparr>"
      by simp_all
    have "int (length (py_range 0 (int (page_count doc)) 1)) = int (page_count doc)"
      by (rule length_py_range_1) simp
    with added_plus_failed [of env config doc "py_range 0 (int (page_count doc)) 1"]
    show ?thesis
      unfolding d s by simp
  qed
  have funs: "page_added env config doc
        = (\<lambda>n. case try_page env config doc n of
                                   Inl exc \<Rightarrow> [] | Inr (new_warnings, page) \<Rightarrow> [page])"
     "page_warnings env config doc
        = (\<lambda>n. case try_page env config doc n of
                                   Inl exc \<Rightarrow> [''Corrupted/unreadable page '' @ str_int (n + 1)
                                                 @ '': '' @ str_exc exc]
                                 | Inr (new_warnings, page) \<Rightarrow> new_warnings)"
     "page_failed env config doc
        = (\<lambda>n. case try_page env config doc n of Inl exc \<Rightarrow> True | Inr r \<Rightarrow> False)"
    by (simp_all add: fun_eq_iff page_added_def page_warnings_def page_failed_def)
  from part1 part2 show ?thesis
    unfolding funs by blast
qed

lemma example_run:
  "process example_env example_config =
     Inr (\<lparr>sections = [Section (DocumentSection ''# Intro'' 1 [] 1 1 [])],
           pages =
             [\<lparr>page_number = 1, classification = NATIVE_TEXT,
               content =
                 \<lparr>body_text = ''Intro'', headers = [], footers = [], tables = [],
                  reading_order_blocks =
                    [\<lparr>block_text = ''# Intro'', bbox = (0, 0, 10, 10),
                      block_type = ''heading''\<rparr>]\<rparr>,
               ocr_confidence = None\<rparr>,
              \<lparr>page_number = 3, classification = SCANNED,
               content =
                 \<lparr>body_text = ''scan'', headers = [], footers = [], tables = [],
                  reading_order_blocks = []\<rparr>,
               ocr_confidence = Some (1 / 2)\<rparr>]\<rparr>,
          \<lparr>total_pages = 3, pages_processed = 2, pages_skipped = 1,
           warnings =
             [''Corrupted/unreadable page 2: bad page'',
              ''Low OCR confidence on page 3: 0.50''],
           processing_time_seconds = 5 / 2\<rparr>)"
  by code_simp

theorem process_summary_witness:
  "path_exists example_env \<and> open_pdf example_env = Inr example_doc
   \<and> 0 < chunk_size example_config
   \<and> monotonic_start example_env \<le> monotonic_end example_env
   \<and> (\<exists>document summary.
         process example_env example_config = Inr (document, summary)
         \<and> pages_processed summary + pages_skipped summary = total_pages summary
         \<and> 0 \<le> processing_time_seconds summary
         \<and> total_pages summary = 3 \<and> pages_processed summary = 2 \<and> pages_skipped summary = 1
         \<and> map page_number (pages document) = [1, 3]
         \<and> warnings summary =
             [''Corrupted/unreadable page 2: bad page'',
              ''Low OCR confidence on page 3: 0.50''])"
proof -
  have ex: "path_exists example_env" and op: "open_pdf example_env = Inr example_doc"
    and cs: "0 < chunk_size example_config"
    and tm: "monotonic_start example_env \<le> monotonic_end example_env"
    by (simp_all add: example_env_def example_config_def)
  from ex op cs
  have pre: "path_exists example_env \<and> open_pdf example_env = Inr example_doc
      \<and> 0 < chunk_size example_config"
    by (intro conjI)
  from process_summary [of example_env example_doc example_config, THEN conjunct1,
      rule_format, OF pre]
  obtain document summary where r: "process example_env example_config = Inr (document, summary)"
    by (elim exE)
  note facts = process_summary [of example_env example_doc example_config document summary,
      THEN conjunct2, rule_format, OF conjI [OF r op]]
  have total: "pages_processed summary + pages_skipped summary = total_pages summary"
    by (rule facts [THEN conjunct2, THEN conjunct1])
  have time: "0 \<le> processing_time_seconds summary"
    by (rule facts [THEN conjunct2, THEN conjunct2, THEN conjunct2, THEN conjunct2,
          THEN conjunct2, THEN conjunct2, rule_format, OF tm])
  from r have d: "map page_number (pages document) = [1, 3]"
    and s: "total_pages summary = 3" "pages_processed summary = 2" "pages_skipped summary = 1"
      "warnings summary =
             [''Corrupted/unreadable page 2: bad page'',
              ''Low OCR confidence on page 3: 0.50'']"
    by (auto simp: example_run)
  from ex op cs tm r total time d s show ?thesis
    by (intro conjI exI [of _ document] exI [of _ summary]) assumption+
qed


section \<open>Parsing markup\<close>

lemma parse_pages_defaults:
  "parse_pages chunks = Some (secs, pgs) \<Longrightarrow> p \<in> set pgs \<Longrightarrow>
     classification p = NATIVE_TEXT \<and> ocr_confidence p = None"
  by (induction chunks arbitrary: secs pgs p) (auto split: option.splits)

lemma from_markdown_pages:
  "from_markdown s = Some d \<Longrightarrow>
     pages d = [] \<or> (\<exists>secs. parse_pages (split_by_pages (strip_toc s)) = Some (secs, pages d))"
  by (auto simp: from_markdown_def split: if_splits option.splits)

text \<open>
  Claim C10. Every page of a parsed document has the classification \<open>NATIVE_TEXT\<close> and
  no OCR confidence, whatever the input text is.
\<close>

theorem from_markdown_defaults:
  "from_markdown s = Some d \<Longrightarrow> p \<in> set (pages d) \<Longrightarrow>
     classification p = NATIVE_TEXT \<and> ocr_confidence p = None"
  using from_markdown_pages [of s d] by (auto dest: parse_pages_defaults)

lemma two_paragraphs:
  "from_markdown ''<!-- page: 1 -->\<newline>\<newline>a\<newline>\<newline>b\<newline>'' =
     Some \<lparr>sections = [],
           pages = [\<lparr>page_number = 1, classification = NATIVE_TEXT,
                     content = \<lparr>body_text = ''a\<newline>\<newline>b'', headers = [], footers = [],
                                tables = [],
                                reading_order_blocks =
                                  [\<lparr>block_text = ''a'', bbox = (0, 0, 0, 0),
                                    block_type = ''paragraph''\<rparr>,
                                   \<lparr>block_text = ''b'', bbox = (0, 0, 0, 0),
                                    block_type = ''paragraph''\<rparr>]\<rparr>,
                     ocr_confidence = None\<rparr>]\<rparr>"
  by code_simp

theorem from_markdown_defaults_witness:
  "from_markdown ''<!-- page: 1 -->\<newline>\<newline>a\<newline>\<newline>b\<newline>'' \<noteq> None
   \<and> map classification
         (pages (the (from_markdown ''<!-- page: 1 -->\<newline>\<newline>a\<newline>\<newline>b\<newline>'')))
       = [NATIVE_TEXT]
   \<and> map ocr_confidence
         (pages (the (from_markdown ''<!-- page: 1 -->\<newline>\<newline>a\<newline>\<newline>b\<newline>'')))
       = [None]"
proof -
  let ?s = "''<!-- page: 1 -->\<newline>\<newline>a\<newline>\<newline>b\<newline>''"
  obtain d where d: "from_markdown ?s = Some d" and n: "length (pages d) = 1"
    by (simp add: two_paragraphs)
  from n obtain p where p: "pages d = [p]"
    by (cases "pages d") auto
  then have "p \<in> set (pages d)" by simp
  from from_markdown_defaults [OF d this]
  have "classification p = NATIVE_TEXT" and "ocr_confidence p = None" by simp_all
  with d p show ?thesis by simp
qed






lemma from_markdown_blank: "strip s = [] \<Longrightarrow> from_markdown s = Some \<lparr>sections = [], pages = []\<rparr>"
  by (simp add: from_markdown_def)

lemma section_without_heading:
  "parse_sections_from_chunk ''<!-- section: T -->\<newline>no heading'' 4
     = [DocumentSection ''T'' 1 [] 4 4 []]"
  by code_simp

lemma separator_not_recognised:
  "parse_table [''| a | b |'', ''| -x- | --- |'', ''| c | d |'']
     = Some \<lparr>rows = [[''a'', ''b''], [''-x-'', ''---''], [''c'', ''d'']]\<rparr>"
  by code_simp

text \<open>
  Claim C7 fails on the code: \<open>from_markdown\<close> does not return for every input. A line
  that is not blank, not a table line, does not match the list-item pattern and is not a
  heading, but at which the paragraph loop stops at once, leaves the main loop of
  \<open>_parse_extracted_content\<close> where it is: no block is added and the index is not
  advanced. A line that holds a hyphen and one space, and nothing after it, is such a
  line: the list-item pattern wants a character after the space, the test of the
  paragraph loop does not.
\<close>

lemma parse_lines_stuck:
  assumes "stuck_line l"
  shows "parse_lines (l # rest) blks tbls = None"
proof (rule ccontr)
  assume "parse_lines (l # rest) blks tbls \<noteq> None"
  then obtain y where ret: "parse_lines (l # rest) blks tbls = Some y" by auto
  have "\<not> (\<exists>r. lines = l # r)" if "parse_lines lines b t = Some z" for lines b t z
  proof (rule parse_lines.raw_induct [where P = "\<lambda>lines b t z. \<not> (\<exists>r. lines = l # r)", OF _ that])
    fix f :: "string list \<Rightarrow> TextBlock list \<Rightarrow> Table list \<Rightarrow> (TextBlock list \<times> Table list) option"
      and lines b t z
    assume IH: "\<And>lines b t z. f lines b t = Some z \<Longrightarrow> \<not> (\<exists>r. lines = l # r)"
      and eq: "(case lines of
        [] \<Rightarrow> Some (b, t)
      | line # rest \<Rightarrow>
          if strip line = [] then f rest b t
          else if is_table_line line then
            (let table_lines = map strip (takeWhile is_table_line lines);
                 lines' = dropWhile is_table_line lines
             in f lines' b
                  (case parse_table table_lines of Some tb \<Rightarrow> t @ [tb] | None \<Rightarrow> t))
          else
            (case match_list_item line of
               Some (indent, item_text) \<Rightarrow>
                 f rest
                   (b @ [\<lparr>block_text = item_text,
                             bbox = (10 + of_nat (indent div 2) * 30, 0, 0, 0),
                             block_type = ''list_item''\<rparr>])
                   t
             | None \<Rightarrow>
                 if match_heading (strip line) \<noteq> None then
                   f rest
                     (b @ [\<lparr>block_text = strip line, bbox = (0, 0, 0, 0),
                               block_type = ''heading''\<rparr>])
                     t
                 else
                   (let para_lines = map strip (takeWhile (\<lambda>l. \<not> paragraph_break l) lines);
                        lines' = dropWhile (\<lambda>l. \<not> paragraph_break l) lines
                    in f lines'
                         (if para_lines \<noteq> []
                          then b @ [\<lparr>block_text = join ''\<newline>'' para_lines,
                                         bbox = (0, 0, 0, 0), block_type = ''paragraph''\<rparr>]
                          else b)
                         t))) = Some z"
    show "\<not> (\<exists>r. lines = l # r)"
    proof
      assume "\<exists>r. lines = l # r"
      then obtain r where lines: "lines = l # r" by blast
      with eq assms have "f lines b t = Some z"
        by (simp add: stuck_line_def)
      from IH [OF this] lines show False by blast
    qed
  qed
  from this [OF ret] show False by blast
qed

lemma hyphen_space_stuck: "stuck_line ''- ''"
  by code_simp

theorem from_markdown_diverges:
  "from_markdown ''<!-- page: 1 -->\<newline>- \<newline>x'' = None"
proof -
  have "strip_section_markers ''\<newline>- \<newline>x'' = ''\<newline>- \<newline>x''"
    by code_simp
  moreover have "strip ''\<newline>- \<newline>x'' = ''- \<newline>x''"
    by code_simp
  moreover have "split_on CHR ''\<newline>'' ''- \<newline>x'' = [''- '', ''x'']"
    by code_simp
  ultimately have "parse_extracted_content (strip_section_markers ''\<newline>- \<newline>x'') = None"
    by (simp add: parse_extracted_content_def parse_lines_stuck [OF hyphen_space_stuck])
  moreover have "split_by_pages (strip_toc ''<!-- page: 1 -->\<newline>- \<newline>x'') = [(1, ''\<newline>- \<newline>x'')]"
    by code_simp
  moreover have "strip ''<!-- page: 1 -->\<newline>- \<newline>x'' \<noteq> []"
    by code_simp
  ultimately show ?thesis
    by (simp add: from_markdown_def)
qed

section \<open>Joining, splitting and stripping\<close>

lemma join_Cons: "join sep (x # xs) = x @ concat (map (\<lambda>a. sep @ a) xs)"
  by (induction xs arbitrary: x) simp_all

lemma join_append:
  "xs \<noteq> [] \<Longrightarrow> ys \<noteq> [] \<Longrightarrow> join sep (xs @ ys) = join sep xs @ sep @ join sep ys"
  by (cases xs; cases ys) (simp_all add: join_Cons)

lemma sep_join: "xs \<noteq> [] \<Longrightarrow> sep @ join sep xs = concat (map (\<lambda>a. sep @ a) xs)"
  by (cases xs) (simp_all add: join_Cons)

lemma join_nonempty: "xs \<noteq> [] \<Longrightarrow> \<forall>x \<in> set xs. x \<noteq> [] \<Longrightarrow> join sep xs \<noteq> []"
  by (cases xs) (simp_all add: join_Cons)

lemma split_on_not_Nil [simp]: "split_on c s \<noteq> []"
  by (induction s) (auto split: list.split)

lemma split_on_no_sep: "c \<notin> set l \<Longrightarrow> split_on c l = [l]"
  by (induction l) auto

lemma split_on_append_sep: "split_on c (a @ c # b) = split_on c a @ split_on c b"
proof (induction a)
  case Nil
  show ?case by simp
next
  case (Cons x a)
  obtain l ls where s: "split_on c a = l # ls"
    by (cases "split_on c a") simp_all
  with Cons show ?case by simp
qed

lemma split_on_line_append:
  "c \<notin> set l \<Longrightarrow> split_on c (l @ c # b) = l # split_on c b"
  by (simp add: split_on_append_sep split_on_no_sep)

lemma split_join:
  "ls \<noteq> [] \<Longrightarrow> \<forall>l \<in> set ls. c \<notin> set l \<Longrightarrow> split_on c (join [c] ls) = ls"
proof (induction ls)
  case Nil
  then show ?case by simp
next
  case (Cons l ls)
  show ?case
  proof (cases ls)
    case Nil
    with Cons.prems show ?thesis by (simp add: split_on_no_sep)
  next
    case (Cons y ys)
    then have "join [c] (l # ls) = l @ c # join [c] ls" by simp
    moreover have "split_on c (join [c] ls) = ls"
      using Cons Cons.prems Cons.IH by simp
    ultimately show ?thesis
      using Cons.prems by (simp add: split_on_line_append)
  qed
qed

lemma is_space_newline [simp]: "is_space CHR ''\<newline>''"
  by (simp add: is_space_def)

lemma is_space_blank [simp]: "is_space CHR '' ''"
  by (simp add: is_space_def)

lemma strip_Nil [simp]: "strip [] = []"
  by (simp add: strip_def)

lemma strip_id:
  "s \<noteq> [] \<Longrightarrow> \<not> is_space (hd s) \<Longrightarrow> \<not> is_space (last s) \<Longrightarrow> strip s = s"
proof -
  assume s: "s \<noteq> []" and h: "\<not> is_space (hd s)" and l: "\<not> is_space (last s)"
  from s h have "dropWhile is_space s = s" by (cases s) simp_all
  moreover from s l have "dropWhile is_space (rev s) = rev s"
    by (cases "rev s") (simp_all add: last_rev [symmetric] hd_rev)
  ultimately show ?thesis by (simp add: strip_def)
qed

lemma strip_spaces:
  assumes "\<forall>c \<in> set a. is_space c" and "\<forall>c \<in> set b. is_space c"
  shows "strip (a @ s @ b) = strip s"
proof -
  have 1: "dropWhile is_space (a @ s @ b) = dropWhile is_space (s @ b)"
    using assms(1) by (simp add: dropWhile_append)
  have 2: "dropWhile is_space (rev (dropWhile is_space (s @ b)))
         = dropWhile is_space (rev (dropWhile is_space s))"
  proof (cases "\<forall>c \<in> set s. is_space c")
    case True
    then have sb: "dropWhile is_space (s @ b) = dropWhile is_space b"
      and s0: "dropWhile is_space s = []"
      by (simp_all add: dropWhile_append)
    have b0: "dropWhile is_space b = []"
      using assms(2) by simp
    show ?thesis unfolding sb s0 b0 ..
  next
    case False
    then have "dropWhile is_space (s @ b) = dropWhile is_space s @ b"
      by (auto simp: dropWhile_append)
    then show ?thesis using assms(2) by (simp add: dropWhile_append)
  qed
  show ?thesis unfolding strip_def 1 2 ..
qed

lemma strip_all_space: "\<forall>c \<in> set s. is_space c \<Longrightarrow> strip s = []"
proof -
  assume "\<forall>c \<in> set s. is_space c"
  then have d: "dropWhile is_space s = []" by simp
  show ?thesis unfolding strip_def d by simp
qed

lemma strip_eq_Nil_iff: "strip s = [] \<longleftrightarrow> (\<forall>c \<in> set s. is_space c)"
proof
  assume "strip s = []"
  then have "dropWhile is_space (rev (dropWhile is_space s)) = []"
    by (simp add: strip_def)
  then have "\<forall>c \<in> set (dropWhile is_space s). is_space c"
    by (simp add: dropWhile_eq_Nil_conv)
  then have "dropWhile is_space s = []"
    by (metis dropWhile_eq_Nil_conv hd_dropWhile list.set_sel(1))
  then show "\<forall>c \<in> set s. is_space c"
    by (simp add: dropWhile_eq_Nil_conv)
qed (rule strip_all_space)

lemma strip_idem_hd: "strip s = s \<Longrightarrow> s \<noteq> [] \<Longrightarrow> \<not> is_space (hd s) \<and> \<not> is_space (last s)"
proof -
  assume e: "strip s = s" and n: "s \<noteq> []"
  let ?d = "dropWhile is_space s"
  from e have l: "length s \<le> length ?d"
    by (metis strip_def length_rev length_dropWhile_le)
  have "length ?d \<le> length s" by (rule length_dropWhile_le)
  with l have "length ?d = length s" by simp
  then have d: "?d = s"
    by (metis dropWhile_eq_drop append_eq_conv_conj append_take_drop_id length_drop diff_is_0_eq' le_refl takeWhile_dropWhile_id append_self_conv2 length_0_conv add_diff_cancel_right' length_append)
  with n have h: "\<not> is_space (hd s)"
    by (metis hd_dropWhile)
  from e d have "rev (dropWhile is_space (rev s)) = s" by (simp add: strip_def)
  then have "dropWhile is_space (rev s) = rev s" by (metis rev_rev_ident)
  with n have "\<not> is_space (hd (rev s))" by (metis hd_dropWhile rev_is_Nil_conv)
  with n h show ?thesis by (simp add: hd_rev)
qed

section \<open>Parsing the pieces of a page\<close>

lemma parse_lines_Nil: "parse_lines [] b t = Some (b, t)"
  by (subst parse_lines.simps) simp

lemma parse_lines_blank: "parse_lines ([] # ls) b t = parse_lines ls b t"
  by (subst parse_lines.simps) simp

lemma match_heading_prefix: "match_heading s \<noteq> None \<Longrightarrow> match_heading_prefix s"
  by (auto simp: match_heading_def match_heading_prefix_def Let_def split: list.splits if_splits)

lemma match_list_item_prefix: "match_list_item s \<noteq> None \<Longrightarrow> match_list_prefix s"
  by (auto simp: match_list_item_def match_list_prefix_def Let_def split: if_splits)

lemma is_table_line_iff: "strip l = l \<Longrightarrow> is_table_line l \<longleftrightarrow> startswith l ''|''"
  by (simp add: is_table_line_def)

lemma paragraph_break_Nil [simp]: "paragraph_break []"
  by (simp add: paragraph_break_def)

lemma parse_heading:
  assumes "heading_line h"
  shows "parse_lines (h # ls) b t =
     parse_lines ls (b @ [\<lparr>block_text = h, bbox = (0, 0, 0, 0), block_type = ''heading''\<rparr>]) t"
  using assms
  by (subst parse_lines.simps) (auto simp: heading_line_def is_table_line_iff)

lemma parse_paragraph:
  assumes "plain_paragraph p" and "starts_blank ls"
  shows "parse_lines (p # ls) b t =
     parse_lines ls (b @ [\<lparr>block_text = p, bbox = (0, 0, 0, 0), block_type = ''paragraph''\<rparr>]) t"
proof -
  from assms(1) have p: "p \<noteq> []" "strip p = p" "\<not> startswith p ''|''"
    "\<not> match_list_prefix p" "\<not> match_heading_prefix p"
    by (simp_all add: plain_paragraph_def)
  then have nb: "\<not> paragraph_break p"
    by (simp add: paragraph_break_def is_table_line_iff)
  from p have li: "match_list_item p = None"
    using match_list_item_prefix [of p] by (cases "match_list_item p") auto
  from p have hd: "match_heading p = None"
    using match_heading_prefix [of p] by (cases "match_heading p") auto
  have tw: "takeWhile (\<lambda>l. \<not> paragraph_break l) (p # ls) = [p]"
    and dw: "dropWhile (\<lambda>l. \<not> paragraph_break l) (p # ls) = ls"
    using nb assms(2) by (cases ls; simp add: starts_blank_def)+
  show ?thesis
    by (subst parse_lines.simps)
       (simp add: p is_table_line_iff li hd tw dw del: takeWhile.simps dropWhile.simps)
qed

lemma not_space_hyphen [simp]: "\<not> is_space CHR ''-''"
  by (simp add: is_space_def)

lemma replicate_spaces: "concat (replicate n ''  '') = replicate (2 * n) CHR '' ''"
  by (induction n) simp_all

lemma match_list_item_line:
  "t \<noteq> [] \<Longrightarrow> match_list_item (list_item_line (n, t)) = Some (2 * n, t)"
  by (cases t)
     (simp_all add: match_list_item_def list_item_line_def replicate_spaces Let_def
        takeWhile_append dropWhile_append)

lemma list_item_line_not_blank:
  "strip (list_item_line (n, t)) \<noteq> [] \<and> \<not> is_table_line (list_item_line (n, t))"
proof -
  have s: "list_item_line (n, t) = replicate (2 * n) CHR '' '' @ (CHR ''-'' # CHR '' '' # t)"
    by (simp add: list_item_line_def replicate_spaces)
  have d: "dropWhile is_space (list_item_line (n, t)) = CHR ''-'' # CHR '' '' # t"
    unfolding s by (simp add: dropWhile_append is_space_def)
  have "strip (list_item_line (n, t)) = rev (dropWhile is_space (rev (CHR ''-'' # CHR '' '' # t)))"
    by (simp only: strip_def d)
  also have "\<dots> = CHR ''-'' # rev (dropWhile is_space (rev (CHR '' '' # t)))"
    by (simp add: dropWhile_append is_space_def)
  finally show ?thesis
    by (simp add: is_table_line_def)
qed

lemma parse_list_run:
  assumes "list_all (\<lambda>(n, t). plain_item t) its"
  shows "parse_lines (map list_item_line its @ ls) b t =
     parse_lines ls (b @ piece_blocks (ListRun its)) t"
  using assms
proof (induction its arbitrary: b)
  case Nil
  show ?case by simp
next
  case (Cons it its)
  obtain n tx where it: "it = (n, tx)" by (cases it)
  with Cons.prems have tx: "tx \<noteq> []" by (simp add: plain_item_def)
  have "parse_lines (list_item_line (n, tx) # map list_item_line its @ ls) b t
      = parse_lines (map list_item_line its @ ls)
          (b @ [\<lparr>block_text = tx, bbox = (10 + of_nat n * 30, 0, 0, 0),
                  block_type = ''list_item''\<rparr>]) t"
    using list_item_line_not_blank [of n tx]
    by (subst parse_lines.simps) (simp add: match_list_item_line [OF tx])
  with Cons.IH [of "b @ [\<lparr>block_text = tx, bbox = (10 + of_nat n * 30, 0, 0, 0),
                  block_type = ''list_item''\<rparr>]"] Cons.prems it
  show ?case by simp
qed

lemma not_space_bar [simp]: "\<not> is_space CHR ''|''"
  by (simp add: is_space_def)

lemma strip_row_line [simp]: "strip (table_row_line cells) = table_row_line cells"
  by (rule strip_id) (simp_all add: table_row_line_def)

lemma row_line_is_table_line [simp]: "is_table_line (table_row_line cells)"
  by (simp add: is_table_line_def) (simp add: table_row_line_def)

lemma split_cells:
  "cells \<noteq> [] \<Longrightarrow> \<forall>c \<in> set cells. CHR ''|'' \<notin> set c \<Longrightarrow>
     split_on CHR ''|'' ('' '' @ join '' | '' cells @ '' '') = map (\<lambda>c. '' '' @ c @ '' '') cells"
proof (induction cells)
  case Nil
  then show ?case by simp
next
  case (Cons c cells)
  show ?case
  proof (cases cells)
    case Nil
    with Cons.prems show ?thesis by (simp add: split_on_no_sep)
  next
    case (Cons d ds)
    let ?X = "'' '' @ join '' | '' cells @ '' ''"
    from Cons have e: "'' '' @ join '' | '' (c # cells) @ '' '' = ('' '' @ c @ '' '') @ CHR ''|'' # ?X"
      by simp
    have n: "CHR ''|'' \<notin> set ('' '' @ c @ '' '')"
      using Cons.prems by simp
    have "split_on CHR ''|'' (('' '' @ c @ '' '') @ CHR ''|'' # ?X)
        = ('' '' @ c @ '' '') # split_on CHR ''|'' ?X"
      by (rule split_on_line_append [OF n])
    then have "split_on CHR ''|'' ('' '' @ join '' | '' (c # cells) @ '' '')
        = ('' '' @ c @ '' '') # split_on CHR ''|'' ?X"
      by (simp only: e)
    moreover have "split_on CHR ''|'' ?X = map (\<lambda>c. '' '' @ c @ '' '') cells"
      using Cons Cons.IH Cons.prems by simp
    ultimately show ?thesis by simp
  qed
qed

lemma strip_char_row:
  "strip_char CHR ''|'' (table_row_line cells) = '' '' @ join '' | '' cells @ '' ''"
  by (simp add: strip_char_def table_row_line_def)

lemma strip_padded: "strip ('' '' @ c @ '' '') = strip c"
  by (rule strip_spaces) simp_all

lemma table_cells_row:
  assumes "cells \<noteq> []" and "\<forall>c \<in> set cells. CHR ''|'' \<notin> set c \<and> strip c = c"
  shows "table_cells (table_row_line cells) = cells"
proof -
  have "split_on CHR ''|'' ('' '' @ join '' | '' cells @ '' '') = map (\<lambda>c. '' '' @ c @ '' '') cells"
    using assms by (intro split_cells) auto
  then have "table_cells (table_row_line cells) = map strip (map (\<lambda>c. '' '' @ c @ '' '') cells)"
    by (simp only: table_cells_def strip_char_row)
  also have "\<dots> = map (\<lambda>c. strip c) cells"
    by (simp only: map_map o_def strip_padded)
  also have "\<dots> = cells"
    using assms(2) by (simp add: map_idI)
  finally show ?thesis .
qed

lemma separator_cells:
  "0 < n \<Longrightarrow> is_separator (table_cells (table_row_line (replicate n ''---'')))"
proof -
  assume "0 < n"
  have d: "strip ''---'' = ''---''" by (rule strip_id) simp_all
  from \<open>0 < n\<close> have "table_cells (table_row_line (replicate n ''---'')) = replicate n ''---''"
    by (intro table_cells_row) (auto simp: d)
  then show ?thesis
    by (simp add: is_separator_def d match_dashes_def list_all_iff)
qed

lemma parse_lines_table:
  "strip l \<noteq> [] \<Longrightarrow> is_table_line l \<Longrightarrow>
   parse_lines (l # ls) b t =
     parse_lines (dropWhile is_table_line (l # ls)) b
       (case parse_table (map strip (takeWhile is_table_line (l # ls))) of
          Some tb \<Rightarrow> t @ [tb] | None \<Rightarrow> t)"
  by (subst parse_lines.simps) (simp add: Let_def)

lemma row_line_not_Nil [simp]: "table_row_line cells \<noteq> []"
  by (simp add: table_row_line_def)

lemma parse_table_rows:
  assumes "clean_table rws" and "starts_blank ls"
  shows "parse_lines (piece_lines (TableRows rws) @ ls) b t = parse_lines ls b (t @ [\<lparr>rows = rws\<rparr>])"
proof -
  from assms(1) obtain header data_rows where rws: "rws = header # data_rows"
    and header: "header \<noteq> []"
    and clean: "\<forall>row \<in> set rws. \<forall>c \<in> set row. clean_cell c"
    and rect: "\<forall>row \<in> set data_rows. length row = length header"
    by (cases rws) (auto simp: clean_table_def list_all_iff)
  define l0 where "l0 = table_row_line header"
  define l1 where "l1 = table_row_line (replicate (length header) ''---'')"
  define more where "more = map table_row_line data_rows"
  have lines: "piece_lines (TableRows rws) = l0 # l1 # more"
    by (simp add: rws l0_def l1_def more_def)
  have tl0: "is_table_line l0" "strip l0 = l0" "l0 \<noteq> []"
    and tl1: "is_table_line l1" "strip l1 = l1"
    and tm: "\<forall>l \<in> set more. is_table_line l" "map strip more = more"
    by (auto simp: l0_def l1_def more_def map_idI)
  have nb: "\<not> is_table_line []"
    by (simp add: is_table_line_def)
  have "takeWhile is_table_line (more @ ls) = more \<and> dropWhile is_table_line (more @ ls) = ls"
    using assms(2) tm(1) nb
    by (cases ls) (simp_all add: starts_blank_def takeWhile_append dropWhile_append)
  with tl0 tl1 have tw: "takeWhile is_table_line (l0 # l1 # more @ ls) = l0 # l1 # more"
    and dw: "dropWhile is_table_line (l0 # l1 # more @ ls) = ls"
    by simp_all
  have cells: "table_cells (table_row_line row) = row" if "row \<in> set rws" for row
  proof (rule table_cells_row)
    from that rect header rws show "row \<noteq> []" by auto
    from that clean show "\<forall>c \<in> set row. CHR ''|'' \<notin> set c \<and> strip c = c"
      by (auto simp: clean_cell_def)
  qed
  have "map table_cells more = data_rows"
    using cells rws by (simp add: more_def map_idI)
  moreover have "table_cells l0 = header"
    using cells [of header] rws by (simp add: l0_def)
  moreover have "is_separator (table_cells l1)"
    unfolding l1_def using header by (intro separator_cells) simp
  ultimately have pt: "parse_table (l0 # l1 # more) = Some \<lparr>rows = rws\<rparr>"
    by (simp add: rws)
  have st: "map strip (l0 # l1 # more) = l0 # l1 # more"
    using tl0 tl1 tm by simp
  have "parse_lines (l0 # (l1 # more @ ls)) b t = parse_lines ls b (t @ [\<lparr>rows = rws\<rparr>])"
    using tl0 by (simp only: parse_lines_table tw dw st pt option.case simp_thms)
  then show ?thesis by (simp only: lines append_Cons)
qed

lemma parse_pieces:
  assumes "separated ps" and "\<forall>p \<in> set ps. good_piece p"
  shows "parse_lines (concat (map piece_lines ps)) b t =
     Some (b @ concat (map piece_blocks ps), t @ concat (map piece_tables ps))"
  using assms
proof (induction ps arbitrary: b t rule: separated.induct)
  case 1
  show ?case by (simp add: parse_lines_Nil)
next
  case (2 p)
  have sb: "starts_blank []" by (simp add: starts_blank_def)
  from 2 show ?case
    using parse_heading [of _ "[]" b t] parse_paragraph [OF _ sb, of _ b t]
      parse_list_run [of _ "[]" b t] parse_table_rows [OF _ sb, of _ b t]
    by (cases p) (simp_all add: parse_lines_Nil parse_lines_blank)
next
  case (3 p q ps)
  then have sep: "separated (q # ps)" and good: "\<forall>p \<in> set (q # ps). good_piece p"
    and gp: "good_piece p" and pq: "p = Blank \<or> q = Blank"
    by simp_all
  note IH = "3.IH" [OF sep good]
  let ?ls = "concat (map piece_lines (q # ps))"
  have sb: "starts_blank ?ls" if "p \<noteq> Blank"
    using that pq by (simp add: starts_blank_def)
  show ?case
  proof (cases p)
    case Blank
    then show ?thesis using IH by (simp add: parse_lines_blank)
  next
    case (Comment c)
    with gp show ?thesis by simp
  next
    case (Heading h)
    with gp IH [of "b @ piece_blocks p" t] show ?thesis
      by (simp add: parse_heading)
  next
    case (Para x)
    with gp sb IH [of "b @ piece_blocks p" t] show ?thesis
      by (simp add: parse_paragraph)
  next
    case (ListRun its)
    with gp IH [of "b @ piece_blocks p" t] parse_list_run [of its ?ls b t] show ?thesis
      by simp
  next
    case (TableRows rws)
    with gp sb IH [of b "t @ [\<lparr>rows = rws\<rparr>]"] parse_table_rows [of rws ?ls b t] show ?thesis
      by simp
  qed
qed

section \<open>The lines of a page chunk\<close>

lemma split_piece_text:
  "piece_lines p \<noteq> [] \<Longrightarrow> \<forall>l \<in> set (piece_lines p). CHR ''\<newline>'' \<notin> set l \<Longrightarrow>
     split_on CHR ''\<newline>'' (piece_text p) = piece_lines p"
  unfolding piece_text_def by (rule split_join)

lemma chunk_lines:
  assumes "\<forall>a \<in> set atoms. piece_lines a \<noteq> [] \<and> (\<forall>l \<in> set (piece_lines a). CHR ''\<newline>'' \<notin> set l)"
  shows "split_on CHR ''\<newline>''
           (concat (map (\<lambda>a. ''\<newline>'' @ ''\<newline>'' @ piece_text a) atoms) @ CHR ''\<newline>'' # t)
         = [] # concat (map (\<lambda>a. [] # piece_lines a) atoms) @ split_on CHR ''\<newline>'' t"
  using assms
proof (induction atoms)
  case Nil
  show ?case by simp
next
  case (Cons a atoms)
  let ?g = "\<lambda>a. ''\<newline>'' @ ''\<newline>'' @ piece_text a"
  obtain Z where Z: "concat (map ?g atoms) @ CHR ''\<newline>'' # t = CHR ''\<newline>'' # Z"
    by (cases atoms) simp_all
  from Cons.IH Cons.prems Z
  have IH: "split_on CHR ''\<newline>'' Z
      = concat (map (\<lambda>a. [] # piece_lines a) atoms) @ split_on CHR ''\<newline>'' t"
    by simp
  have a: "split_on CHR ''\<newline>'' (piece_text a) = piece_lines a"
    using Cons.prems by (intro split_piece_text) simp_all
  have "split_on CHR ''\<newline>'' (piece_text a @ CHR ''\<newline>'' # Z) = piece_lines a @ split_on CHR ''\<newline>'' Z"
    by (simp only: split_on_append_sep a)
  moreover have "concat (map ?g (a # atoms)) @ CHR ''\<newline>'' # t
      = CHR ''\<newline>'' # CHR ''\<newline>'' # (piece_text a @ CHR ''\<newline>'' # Z)"
    using Z by simp
  ultimately show ?case
    by (simp add: IH)
qed

lemma set_strip: "set (strip s) \<subseteq> set s"
proof -
  have "set (strip s) = set (dropWhile is_space (rev (dropWhile is_space s)))"
    by (simp add: strip_def)
  also have "\<dots> \<subseteq> set (rev (dropWhile is_space s))"
    by (auto dest: set_dropWhileD)
  also have "\<dots> \<subseteq> set s"
    by (auto dest: set_dropWhileD)
  finally show ?thesis .
qed

lemma no_lt_no_comment: "CHR ''<'' \<notin> set l \<Longrightarrow> match_section_comment (strip l) = None"
proof -
  assume a: "CHR ''<'' \<notin> set l"
  have "\<not> startswith (strip l) ''<!-- section: ''"
  proof
    assume "startswith (strip l) ''<!-- section: ''"
    then have "CHR ''<'' \<in> set (strip l)" by (cases "strip l") auto
    with set_strip [of l] a show False by auto
  qed
  then show ?thesis by (simp add: match_section_comment_def)
qed

lemma filter_chunk_lines:
  assumes "\<forall>a \<in> set atoms. section_comment a \<or> plain_lines a"
  shows "filter (\<lambda>l. match_section_comment (strip l) = None)
           ([] # concat (map (\<lambda>a. [] # piece_lines a) atoms) @ replicate m [])
         = concat (map piece_lines (kept_pieces atoms m))"
proof -
  let ?P = "\<lambda>l. match_section_comment (strip l) = None"
  have nil: "?P []" "match_section_comment [] = None"
    by (simp_all add: match_section_comment_def)
  have one: "filter ?P ([] # piece_lines a)
      = concat (map piece_lines (if section_comment a then [Blank] else [Blank, a]))"
    if "section_comment a \<or> plain_lines a" for a
  proof (cases "section_comment a")
    case True
    then show ?thesis by (auto simp: section_comment_def nil split: piece.splits)
  next
    case False
    with that have "plain_lines a" by simp
    then have "\<forall>l \<in> set (piece_lines a). ?P l"
      by (auto simp: plain_lines_def list_all_iff intro: no_lt_no_comment)
    then have "filter ?P (piece_lines a) = piece_lines a" by simp
    with False nil show ?thesis by simp
  qed
  have "filter ?P (concat (map (\<lambda>a. [] # piece_lines a) atoms))
      = concat (map piece_lines (concat (map (\<lambda>a. if section_comment a then [Blank] else [Blank, a]) atoms)))"
    using assms
  proof (induction atoms)
    case Nil
    show ?case by simp
  next
    case (Cons a atoms)
    then have "filter ?P (concat (map (\<lambda>a. [] # piece_lines a) atoms))
      = concat (map piece_lines (concat (map (\<lambda>a. if section_comment a then [Blank] else [Blank, a]) atoms)))"
      by simp
    moreover from Cons.prems have "section_comment a \<or> plain_lines a" by simp
    note one [OF this]
    ultimately show ?case
      by (simp only: list.map concat.simps filter_append map_append concat_append)
  qed
  moreover have "filter ?P (replicate m []) = concat (map piece_lines (replicate m Blank))"
    using nil by (induction m) simp_all
  ultimately show ?thesis
    using nil by (simp add: kept_pieces_def)
qed

lemma join_blank_ends:
  "X \<noteq> [] \<Longrightarrow>
   join ''\<newline>'' (replicate k [] @ X @ replicate m [])
     = replicate k CHR ''\<newline>'' @ join ''\<newline>'' X @ replicate m CHR ''\<newline>''"
proof (induction k)
  case 0
  then show ?case
  proof (induction m)
    case 0
    show ?case by simp
  next
    case (Suc m)
    have "replicate (Suc m) ([]::string) = replicate m [] @ [[]]"
      by (simp add: replicate_append_same)
    then have "join ''\<newline>'' (replicate 0 [] @ X @ replicate (Suc m) [])
        = join ''\<newline>'' ((X @ replicate m []) @ [[]])"
      by simp
    also have "\<dots> = join ''\<newline>'' (X @ replicate m []) @ ''\<newline>'' @ join ''\<newline>'' [[]]"
      using Suc.prems by (intro join_append) simp_all
    also have "\<dots> = join ''\<newline>'' X @ replicate (Suc m) CHR ''\<newline>''"
      using Suc by (simp add: replicate_append_same)
    finally show ?case by simp
  qed
next
  case (Suc k)
  then have "replicate k [] @ X @ replicate m [] \<noteq> ([]::string list)" by simp
  then obtain y ys where "replicate k [] @ X @ replicate m [] = y # ys"
    by (cases "replicate k [] @ X @ replicate m []") simp_all
  with Suc show ?case by simp
qed

lemma join_blanks: "join ''\<newline>'' (replicate n []) = replicate (n - 1) CHR ''\<newline>''"
proof (induction n)
  case 0
  show ?case by simp
next
  case (Suc n)
  then show ?case by (cases n) simp_all
qed

lemma hd_join: "x \<noteq> [] \<Longrightarrow> hd (join sep (x # xs)) = hd x"
  by (simp add: join_Cons)

lemma join_last_ne: "xs \<noteq> [] \<Longrightarrow> last xs \<noteq> [] \<Longrightarrow> join sep xs \<noteq> []"
  by (induction sep xs rule: join.induct) auto

lemma last_join: "xs \<noteq> [] \<Longrightarrow> last xs \<noteq> [] \<Longrightarrow> last (join sep xs) = last (last xs)"
  by (induction sep xs rule: join.induct) (auto simp: join_last_ne)

lemma takeWhile_eq_replicate:
  "takeWhile (\<lambda>p. p = x) ps = replicate (length (takeWhile (\<lambda>p. p = x) ps)) x"
  by (induction ps) simp_all

lemma dropWhile_trim:
  "\<exists>m. dropWhile (\<lambda>p. p = Blank) ps = trim_blank ps @ replicate m Blank"
proof -
  let ?P = "\<lambda>p. p = Blank"
  let ?d = "dropWhile ?P ps"
  have "rev (takeWhile ?P (rev ?d) @ dropWhile ?P (rev ?d)) = rev (rev ?d)"
    by (simp only: takeWhile_dropWhile_id)
  then have "rev (dropWhile ?P (rev ?d)) @ rev (takeWhile ?P (rev ?d)) = ?d"
    by (simp only: rev_append rev_rev_ident)
  then have a: "?d = trim_blank ps @ rev (takeWhile ?P (rev ?d))"
    by (simp add: trim_blank_def)
  have b: "rev (takeWhile ?P (rev ?d)) = replicate (length (takeWhile ?P (rev ?d))) Blank"
    by (subst takeWhile_eq_replicate) simp
  have "?d = trim_blank ps @ replicate (length (takeWhile ?P (rev ?d))) Blank"
    using a by (simp only: b [symmetric])
  then show ?thesis by (rule exI)
qed

lemma trim_blank_decomp:
  "\<exists>k m. ps = replicate k Blank @ trim_blank ps @ replicate m Blank"
proof -
  let ?P = "\<lambda>p. p = Blank"
  obtain m where m: "dropWhile ?P ps = trim_blank ps @ replicate m Blank"
    using dropWhile_trim by blast
  have "ps = takeWhile ?P ps @ dropWhile ?P ps" by simp
  also have "takeWhile ?P ps = replicate (length (takeWhile ?P ps)) Blank"
    by (rule takeWhile_eq_replicate)
  finally have "ps = replicate (length (takeWhile ?P ps)) Blank @ trim_blank ps @ replicate m Blank"
    by (simp only: m)
  then show ?thesis by (intro exI)
qed

lemma trim_blank_ends:
  assumes "trim_blank ps \<noteq> []"
  shows "hd (trim_blank ps) \<noteq> Blank" and "last (trim_blank ps) \<noteq> Blank"
proof -
  let ?P = "\<lambda>p. p = Blank"
  let ?d = "dropWhile ?P ps"
  from assms have r: "dropWhile ?P (rev ?d) \<noteq> []" by (simp add: trim_blank_def)
  then have "\<not> ?P (hd (dropWhile ?P (rev ?d)))" by (rule hd_dropWhile)
  with r show "last (trim_blank ps) \<noteq> Blank"
    by (simp add: trim_blank_def last_rev)
  obtain m where m: "?d = trim_blank ps @ replicate m Blank"
    using dropWhile_trim by blast
  with assms have "?d \<noteq> []" by simp
  then have "\<not> ?P (hd ?d)" by (rule hd_dropWhile)
  moreover from m assms have "hd ?d = hd (trim_blank ps)" by simp
  ultimately show "hd (trim_blank ps) \<noteq> Blank" by simp
qed

lemma blank_lines: "concat (map piece_lines (replicate k Blank)) = replicate k []"
  by (induction k) simp_all

lemma strip_split_trim:
  assumes nl: "\<forall>p \<in> set ps. \<forall>l \<in> set (piece_lines p). CHR ''\<newline>'' \<notin> set l"
    and core: "trim_blank ps \<noteq> []" "clean_start (hd (trim_blank ps))"
      "clean_end (last (trim_blank ps))"
  shows "strip (join ''\<newline>'' (concat (map piece_lines ps))) \<noteq> []"
    and "split_on CHR ''\<newline>'' (strip (join ''\<newline>'' (concat (map piece_lines ps))))
           = concat (map piece_lines (trim_blank ps))"
proof -
  let ?core = "trim_blank ps"
  let ?CL = "concat (map piece_lines ?core)"
  obtain k m where km: "ps = replicate k Blank @ ?core @ replicate m Blank"
    using trim_blank_decomp by blast
  from core(1) obtain c cs where c: "?core = c # cs" by (cases ?core) auto
  from core(2) c obtain l ls where l: "piece_lines c = l # ls" "l \<noteq> []" "\<not> is_space (hd l)"
    by (auto simp: clean_start_def split: list.splits)
  then have CL: "?CL = l # (ls @ concat (map piece_lines cs))"
    by (simp add: c)
  then have ne: "?CL \<noteq> []" by simp
  have lastCL: "last ?CL = last (piece_lines (last ?core))"
  proof -
    have "concat (map piece_lines (butlast ?core @ [last ?core]))
        = concat (map piece_lines (butlast ?core)) @ piece_lines (last ?core)"
      by simp
    with core(1) have "?CL = concat (map piece_lines (butlast ?core)) @ piece_lines (last ?core)"
      by simp
    with core(3) show ?thesis by (simp add: clean_end_def)
  qed
  with core(3) have lst: "last ?CL \<noteq> []" "\<not> is_space (last (last ?CL))"
    by (simp_all add: clean_end_def)
  let ?J = "join ''\<newline>'' ?CL"
  have "hd ?J = hd l" unfolding CL using l(2) by (rule hd_join)
  moreover have "last ?J = last (last ?CL)" using ne lst(1) by (rule last_join)
  moreover have "?J \<noteq> []" unfolding CL using l(2) by (simp add: join_Cons)
  ultimately have J: "strip ?J = ?J" "?J \<noteq> []"
    using l(3) lst(2) by (simp_all add: strip_id)
  have "concat (map piece_lines ps) = replicate k [] @ ?CL @ replicate m []"
    by (subst km) (simp add: blank_lines)
  then have "join ''\<newline>'' (concat (map piece_lines ps))
      = replicate k CHR ''\<newline>'' @ ?J @ replicate m CHR ''\<newline>''"
    using ne by (simp add: join_blank_ends)
  then have s: "strip (join ''\<newline>'' (concat (map piece_lines ps))) = ?J"
    using J(1) by (simp add: strip_spaces)
  with J(2) show "strip (join ''\<newline>'' (concat (map piece_lines ps))) \<noteq> []" by simp
  have "set ?core \<subseteq> set ps"
    by (subst (2) km) auto
  with nl have "\<forall>l \<in> set ?CL. CHR ''\<newline>'' \<notin> set l" by auto
  with ne have "split_on CHR ''\<newline>'' ?J = ?CL" by (intro split_join) simp_all
  with s show "split_on CHR ''\<newline>'' (strip (join ''\<newline>'' (concat (map piece_lines ps)))) = ?CL"
    by simp
qed

lemma separated_Blank: "separated (Blank # ps) = separated ps"
  by (cases ps) simp_all

lemma separated_blanks: "separated (replicate m Blank)"
  by (induction m) (simp_all add: separated_Blank)

lemma separated_append: "separated (xs @ ys) \<Longrightarrow> separated xs \<and> separated ys"
proof (induction xs rule: separated.induct)
  case 1
  then show ?case by simp
next
  case (2 p)
  then show ?case by (cases ys) simp_all
next
  case (3 p q ps)
  then show ?case by simp
qed

lemma separated_kept: "separated (kept_pieces atoms (Suc m))"
proof -
  let ?f = "\<lambda>a. if section_comment a then [Blank] else [Blank, a]"
  have "separated (concat (map ?f atoms) @ replicate (Suc m) Blank)
      \<and> hd (concat (map ?f atoms) @ replicate (Suc m) Blank) = Blank"
  proof (induction atoms)
    case Nil
    show ?case using separated_blanks [of "Suc m"] by simp
  next
    case (Cons a atoms)
    let ?r = "concat (map ?f atoms) @ replicate (Suc m) Blank"
    from Cons obtain ps where r: "?r = Blank # ps" and s: "separated ?r"
      by (cases ?r) auto
    show ?case
    proof (cases "section_comment a")
      case True
      with s show ?thesis by (simp add: separated_Blank)
    next
      case False
      have "separated (a # Blank # ps)" using s r by (simp add: separated_Blank)
      with False r show ?thesis by (simp add: separated_Blank)
    qed
  qed
  then show ?thesis by (simp add: kept_pieces_def separated_Blank)
qed

lemma separated_trim: "separated ps \<Longrightarrow> separated (trim_blank ps)"
proof -
  assume s: "separated ps"
  obtain k m where km: "ps = replicate k Blank @ trim_blank ps @ replicate m Blank"
    using trim_blank_decomp by blast
  have "separated (replicate k Blank @ trim_blank ps @ replicate m Blank)"
    using s by (simp only: km [symmetric])
  then have "separated (trim_blank ps @ replicate m Blank)" by (rule separated_append [THEN conjunct2])
  then show ?thesis by (rule separated_append [THEN conjunct1])
qed

lemma set_trim: "set (trim_blank ps) \<subseteq> set ps"
proof -
  obtain k m where km: "ps = replicate k Blank @ trim_blank ps @ replicate m Blank"
    using trim_blank_decomp by blast
  have "set (trim_blank ps) \<subseteq> set (replicate k Blank @ trim_blank ps @ replicate m Blank)"
    by auto
  then show ?thesis by (simp only: km [symmetric])
qed

lemma blocks_replicate_Blank [simp]:
  "concat (map piece_blocks (replicate k Blank)) = []"
  "concat (map piece_tables (replicate k Blank)) = []"
  "filter (\<lambda>p. p \<noteq> Blank) (replicate k Blank) = []"
  by (induction k) simp_all

lemma trim_content:
  "concat (map piece_blocks (trim_blank ps)) = concat (map piece_blocks ps)"
  "concat (map piece_tables (trim_blank ps)) = concat (map piece_tables ps)"
  "filter (\<lambda>p. p \<noteq> Blank) (trim_blank ps) = filter (\<lambda>p. p \<noteq> Blank) ps"
proof -
  obtain k m where km: "ps = replicate k Blank @ trim_blank ps @ replicate m Blank"
    using trim_blank_decomp by blast
  show "concat (map piece_blocks (trim_blank ps)) = concat (map piece_blocks ps)"
    by (subst (2) km) simp
  show "concat (map piece_tables (trim_blank ps)) = concat (map piece_tables ps)"
    by (subst (2) km) simp
  show "filter (\<lambda>p. p \<noteq> Blank) (trim_blank ps) = filter (\<lambda>p. p \<noteq> Blank) ps"
    by (subst (2) km) simp
qed

lemma kept_content:
  assumes "\<forall>a \<in> set atoms. section_comment a \<or> a \<noteq> Blank"
  shows "concat (map piece_blocks (kept_pieces atoms m)) = concat (map piece_blocks atoms)"
    and "concat (map piece_tables (kept_pieces atoms m)) = concat (map piece_tables atoms)"
    and "filter (\<lambda>p. p \<noteq> Blank) (kept_pieces atoms m) = filter (\<lambda>a. \<not> section_comment a) atoms"
proof -
  let ?f = "\<lambda>a. if section_comment a then [Blank] else [Blank, a]"
  have c: "piece_blocks a = [] \<and> piece_tables a = []" if "section_comment a" for a
    using that by (cases a) (simp_all add: section_comment_def)
  have "concat (map piece_blocks (concat (map ?f atoms))) = concat (map piece_blocks atoms)"
    by (induction atoms) (simp_all add: c)
  then show "concat (map piece_blocks (kept_pieces atoms m)) = concat (map piece_blocks atoms)"
    by (simp add: kept_pieces_def)
  have "concat (map piece_tables (concat (map ?f atoms))) = concat (map piece_tables atoms)"
    by (induction atoms) (simp_all add: c)
  then show "concat (map piece_tables (kept_pieces atoms m)) = concat (map piece_tables atoms)"
    by (simp add: kept_pieces_def)
  have "filter (\<lambda>p. p \<noteq> Blank) (concat (map ?f atoms)) = filter (\<lambda>a. \<not> section_comment a) atoms"
    using assms by (induction atoms) auto
  then show "filter (\<lambda>p. p \<noteq> Blank) (kept_pieces atoms m) = filter (\<lambda>a. \<not> section_comment a) atoms"
    by (simp add: kept_pieces_def)
qed

lemma trim_hd_last:
  assumes "trim_blank ps \<noteq> []"
  shows "hd (trim_blank ps) = hd (filter (\<lambda>p. p \<noteq> Blank) ps)"
    and "last (trim_blank ps) \<in> set (filter (\<lambda>p. p \<noteq> Blank) ps)"
proof -
  from assms obtain x xs where x: "trim_blank ps = x # xs" by (cases "trim_blank ps") auto
  with trim_blank_ends(1) [OF assms] have "x \<noteq> Blank" by simp
  with x have "filter (\<lambda>p. p \<noteq> Blank) (trim_blank ps) = x # filter (\<lambda>p. p \<noteq> Blank) xs" by simp
  then have "hd (filter (\<lambda>p. p \<noteq> Blank) (trim_blank ps)) = hd (trim_blank ps)"
    using x by simp
  then show "hd (trim_blank ps) = hd (filter (\<lambda>p. p \<noteq> Blank) ps)"
    by (simp only: trim_content(3))
  from assms have "last (trim_blank ps) \<in> set (trim_blank ps)" by simp
  with trim_blank_ends(2) [OF assms]
  have "last (trim_blank ps) \<in> set (filter (\<lambda>p. p \<noteq> Blank) (trim_blank ps))" by simp
  then show "last (trim_blank ps) \<in> set (filter (\<lambda>p. p \<noteq> Blank) ps)"
    by (simp only: trim_content(3))
qed

lemma parse_chunk_content:
  assumes atoms: "\<forall>a \<in> set atoms. section_comment a
                    \<or> (good_piece a \<and> a \<noteq> Blank \<and> plain_lines a \<and> clean_end a)"
    and first: "case filter (\<lambda>a. \<not> section_comment a) atoms of [] \<Rightarrow> True | a # r \<Rightarrow> clean_start a"
    and t: "t = [] \<or> t = ''\<newline>''"
  shows "parse_extracted_content
           (strip_section_markers
              (concat (map (\<lambda>a. ''\<newline>'' @ ''\<newline>'' @ piece_text a) atoms) @ CHR ''\<newline>'' # t))
         = Some (parsed_content atoms)"
proof -
  let ?chunk = "concat (map (\<lambda>a. ''\<newline>'' @ ''\<newline>'' @ piece_text a) atoms) @ CHR ''\<newline>'' # t"
  from t have "split_on CHR ''\<newline>'' t = replicate (Suc 0) []
      \<or> split_on CHR ''\<newline>'' t = replicate (Suc 1) []"
    by auto
  then obtain m where m: "split_on CHR ''\<newline>'' t = replicate (Suc m) []"
    by blast
  let ?KP = "kept_pieces atoms (Suc m)"
  have nl: "piece_lines a \<noteq> [] \<and> (\<forall>l \<in> set (piece_lines a). CHR ''\<newline>'' \<notin> set l)"
    if "a \<in> set atoms" for a
    using atoms [rule_format, OF that]
    by (cases a) (auto simp: section_comment_def plain_lines_def list_all_iff)
  from nl have nl': "\<forall>a \<in> set atoms. piece_lines a \<noteq> []
      \<and> (\<forall>l \<in> set (piece_lines a). CHR ''\<newline>'' \<notin> set l)"
    by blast
  have "split_on CHR ''\<newline>'' ?chunk
      = [] # concat (map (\<lambda>a. [] # piece_lines a) atoms) @ replicate (Suc m) []"
    by (simp only: chunk_lines [OF nl'] m)
  moreover have "\<forall>a \<in> set atoms. section_comment a \<or> plain_lines a"
    using atoms by blast
  ultimately have stripped: "strip_section_markers ?chunk = join ''\<newline>'' (concat (map piece_lines ?KP))"
    by (simp only: strip_section_markers_def filter_chunk_lines)
  have nb: "\<forall>a \<in> set atoms. section_comment a \<or> a \<noteq> Blank"
    using atoms by blast
  note kc = kept_content [OF nb, of "Suc m"]
  show ?thesis
  proof (cases "trim_blank ?KP = []")
    case True
    obtain k j where kj: "?KP = replicate k Blank @ trim_blank ?KP @ replicate j Blank"
      using trim_blank_decomp by blast
    have "replicate k Blank @ trim_blank ?KP @ replicate j Blank = replicate (k + j) Blank"
      by (simp only: True append_Nil replicate_add)
    with kj have KP: "?KP = replicate (k + j) Blank"
      by (rule trans)
    then have "concat (map piece_lines ?KP) = replicate (k + j) []"
      by (simp only: blank_lines)
    then have "strip (strip_section_markers ?chunk) = []"
      by (simp only: stripped join_blanks) (simp add: strip_all_space)
    moreover have "concat (map piece_blocks atoms) = concat (map piece_blocks (replicate (k + j) Blank))"
      "concat (map piece_tables atoms) = concat (map piece_tables (replicate (k + j) Blank))"
      using kc(1,2) by (simp_all only: KP)
    then have b0: "concat (map piece_blocks atoms) = []" and t0: "concat (map piece_tables atoms) = []"
      by simp_all
    have "parsed_content atoms
        = \<lparr>body_text = [], headers = [], footers = [], tables = [], reading_order_blocks = []\<rparr>"
      unfolding parsed_content_def b0 t0 by simp
    ultimately show ?thesis
      by (simp add: parse_extracted_content_def)
  next
    case False
    have nonblank: "filter (\<lambda>p. p \<noteq> Blank) ?KP = filter (\<lambda>a. \<not> section_comment a) atoms"
      by (rule kc(3))
    from trim_hd_last(1) [OF False] nonblank
    have hd: "hd (trim_blank ?KP) = hd (filter (\<lambda>a. \<not> section_comment a) atoms)" by simp
    from trim_hd_last(2) [OF False] nonblank
    have last: "last (trim_blank ?KP) \<in> set (filter (\<lambda>a. \<not> section_comment a) atoms)" by simp
    from last have ne: "filter (\<lambda>a. \<not> section_comment a) atoms \<noteq> []"
      by (cases "filter (\<lambda>a. \<not> section_comment a) atoms") simp_all
    with first hd have cs: "clean_start (hd (trim_blank ?KP))"
      by (cases "filter (\<lambda>a. \<not> section_comment a) atoms") simp_all
    from last have "last (trim_blank ?KP) \<in> set atoms" "\<not> section_comment (last (trim_blank ?KP))"
      by simp_all
    with atoms have ce: "clean_end (last (trim_blank ?KP))" by blast
    have KPset: "p = Blank \<or> (p \<in> set atoms \<and> \<not> section_comment p)" if "p \<in> set ?KP" for p
      using that by (auto simp: kept_pieces_def split: if_splits)
    have nlKP: "\<forall>p \<in> set ?KP. \<forall>l \<in> set (piece_lines p). CHR ''\<newline>'' \<notin> set l"
    proof (intro ballI)
      fix p l assume p: "p \<in> set ?KP" and l: "l \<in> set (piece_lines p)"
      from KPset [OF p] show "CHR ''\<newline>'' \<notin> set l"
      proof
        assume "p = Blank"
        with l show ?thesis by simp
      next
        assume "p \<in> set atoms \<and> \<not> section_comment p"
        with nl [of p] l show ?thesis by blast
      qed
    qed
    note sst = strip_split_trim [OF nlKP False cs ce]
    have good: "\<forall>p \<in> set (trim_blank ?KP). good_piece p"
    proof
      fix p assume "p \<in> set (trim_blank ?KP)"
      with set_trim have "p \<in> set ?KP" by blast
      from KPset [OF this] atoms show "good_piece p" by auto
    qed
    have "separated (trim_blank ?KP)"
      by (intro separated_trim separated_kept)
    from parse_pieces [OF this good, of "[]" "[]"]
    have "parse_lines (concat (map piece_lines (trim_blank ?KP))) [] []
        = Some (concat (map piece_blocks atoms), concat (map piece_tables atoms))"
      by (simp add: trim_content kc)
    with sst have "parse_extracted_content (join ''\<newline>'' (concat (map piece_lines ?KP)))
        = Some (parsed_content atoms)"
      by (simp add: parse_extracted_content_def parsed_content_def)
    then show ?thesis
      by (simp only: stripped)
  qed
qed


subsection \<open>The renderer writes pieces\<close>

lemma render_list_items_piece:
  "items \<noteq> [] \<Longrightarrow> render_list_items items = piece_text (run_piece items)"
  by (cases items)
     (simp_all add: render_list_items_def run_piece_def piece_text_def list_item_line_def
        Let_def comp_def)

lemma render_blocks_loop_pieces:
  "render_blocks_loop blks parts items = parts @ map piece_text (block_pieces blks items)"
  by (induction blks arbitrary: parts items)
     (simp_all add: render_list_items_piece piece_text_def)

lemma block_pieces_not_Nil: "blks \<noteq> [] \<or> items \<noteq> [] \<Longrightarrow> block_pieces blks items \<noteq> []"
  by (induction blks arbitrary: items) auto

lemma block_pieces_tables: "concat (map piece_tables (block_pieces blks items)) = []"
  by (induction blks arbitrary: items) (auto simp: run_piece_def Let_def split: list.split)

lemma solid_text: "solid a \<Longrightarrow> piece_text a \<noteq> []"
  unfolding solid_def clean_end_def piece_text_def by (simp add: join_last_ne)

lemma set_join: "set (join sep xs) \<subseteq> set sep \<union> \<Union> (set ` set xs)"
  by (induction sep xs rule: join.induct) auto

lemma solid_Para:
  assumes "plain_paragraph t"
  shows "solid (Para t) \<and> clean_start (Para t)"
proof -
  from assms have t: "t \<noteq> []" "strip t = t" "CHR ''\<newline>'' \<notin> set t" "CHR ''<'' \<notin> set t"
    by (simp_all add: plain_paragraph_def)
  from strip_idem_hd [OF t(2,1)] t assms show ?thesis
    by (simp add: solid_def plain_lines_def clean_end_def clean_start_def)
qed

lemma set_indent: "set (concat (replicate n ''  '')) \<subseteq> {CHR '' ''}"
  by (induction n) auto

lemma item_line_plain:
  assumes "plain_item t"
  shows "CHR ''\<newline>'' \<notin> set (list_item_line (n, t))" and "CHR ''<'' \<notin> set (list_item_line (n, t))"
    and "list_item_line (n, t) \<noteq> []" and "\<not> is_space (last (list_item_line (n, t)))"
proof -
  from assms have t: "t \<noteq> []" "strip t = t" "CHR ''\<newline>'' \<notin> set t" "CHR ''<'' \<notin> set t"
    by (simp_all add: plain_item_def)
  from set_indent [of n] t(3) show "CHR ''\<newline>'' \<notin> set (list_item_line (n, t))"
    by (auto simp: list_item_line_def)
  from set_indent [of n] t(4) show "CHR ''<'' \<notin> set (list_item_line (n, t))"
    by (auto simp: list_item_line_def)
  show "list_item_line (n, t) \<noteq> []"
    by (simp add: list_item_line_def)
  from strip_idem_hd [OF t(2,1)] t(1) show "\<not> is_space (last (list_item_line (n, t)))"
    by (simp add: list_item_line_def)
qed

lemma solid_ListRun:
  assumes "its \<noteq> []" and "\<forall>it \<in> set its. plain_item (snd it)"
  shows "solid (ListRun its)"
proof -
  have g: "good_piece (ListRun its)"
    using assms by (auto simp: list_all_iff)
  have p: "plain_lines (ListRun its)"
    unfolding plain_lines_def list_all_iff
  proof (intro conjI ballI)
    show "piece_lines (ListRun its) \<noteq> []" using assms(1) by simp
  next
    fix l assume "l \<in> set (piece_lines (ListRun its))"
    then obtain n t where "(n, t) \<in> set its" and l: "l = list_item_line (n, t)"
      by auto
    with assms(2) have "plain_item t" by auto
    from item_line_plain(1,2) [OF this, of n] l
    show "CHR ''\<newline>'' \<notin> set l" and "CHR ''<'' \<notin> set l" by simp_all
  qed
  obtain n t where nt: "last its = (n, t)" by (cases "last its")
  with assms have "plain_item t"
    by (metis last_in_set snd_conv)
  from item_line_plain(3,4) [OF this, of n] nt assms(1)
  have "clean_end (ListRun its)"
    by (simp add: clean_end_def last_map)
  with g p show ?thesis
    by (simp add: solid_def)
qed

lemma fold_min_Min: "fold min ys (x :: rat) = Min (set (x # ys))"
  by (rule Min.set_eq_fold [symmetric])

lemma run_piece_Min:
  "items \<noteq> [] \<Longrightarrow>
   run_piece items =
     ListRun (map (\<lambda>item.
                (if bbox_x0 item - Min (bbox_x0 ` set items) > 15
                 then nat \<lfloor>(bbox_x0 item - Min (bbox_x0 ` set items)) / 30\<rfloor> else 0,
                 block_text item))
              items)"
  by (cases items) (simp_all add: run_piece_def Let_def fold_min_Min)

lemma solid_run_piece:
  assumes "items \<noteq> []" and "\<forall>b \<in> set items. plain_item (block_text b)"
  shows "solid (run_piece items)"
  unfolding run_piece_Min [OF assms(1)] using assms by (intro solid_ListRun) auto

lemma clean_start_run_piece:
  assumes "items \<noteq> []" and "\<forall>b \<in> set items. bbox_x0 (hd items) \<le> bbox_x0 b"
  shows "clean_start (run_piece items)"
proof -
  obtain b bs where items: "items = b # bs" using assms(1) by (cases items) auto
  have m: "Min (bbox_x0 ` set items) = bbox_x0 b"
  proof (rule Min_eqI)
    show "finite (bbox_x0 ` set items)" by simp
    show "bbox_x0 b \<in> bbox_x0 ` set items" by (simp add: items)
    fix y assume "y \<in> bbox_x0 ` set items"
    with assms(2) show "bbox_x0 b \<le> y" by (auto simp: items)
  qed
  show ?thesis
    unfolding run_piece_Min [OF assms(1)] m clean_start_def
    by (simp add: items list_item_line_def)
qed

lemma row_line_plain:
  assumes "\<forall>c \<in> set cells. CHR ''\<newline>'' \<notin> set c \<and> CHR ''<'' \<notin> set c"
  shows "CHR ''\<newline>'' \<notin> set (table_row_line cells) \<and> CHR ''<'' \<notin> set (table_row_line cells)"
proof -
  have "set (table_row_line cells) \<subseteq> {CHR ''|'', CHR '' ''} \<union> \<Union> (set ` set cells)"
    using set_join [of "'' | ''" cells] by (auto simp: table_row_line_def)
  with assms show ?thesis by auto
qed

lemma solid_TableRows:
  assumes "clean_table rws"
  shows "solid (TableRows rws) \<and> clean_start (TableRows rws)"
proof -
  from assms obtain header data_rows where rws: "rws = header # data_rows"
    and cells: "\<forall>r \<in> set rws. \<forall>c \<in> set r. clean_cell c"
    by (cases rws) (auto simp: clean_table_def list_all_iff)
  let ?rs = "header # replicate (length header) ''---'' # data_rows"
  have lines: "piece_lines (TableRows rws) = map table_row_line ?rs"
    by (simp add: rws)
  have "\<forall>r \<in> set ?rs. \<forall>c \<in> set r. CHR ''\<newline>'' \<notin> set c \<and> CHR ''<'' \<notin> set c"
    using cells by (auto simp: rws clean_cell_def)
  then have "\<forall>r \<in> set ?rs. CHR ''\<newline>'' \<notin> set (table_row_line r) \<and> CHR ''<'' \<notin> set (table_row_line r)"
    using row_line_plain by blast
  then have p: "plain_lines (TableRows rws)"
    unfolding plain_lines_def lines list_all_iff by auto
  have e: "clean_end (TableRows rws)"
    unfolding clean_end_def lines by (simp add: last_map table_row_line_def)
  have s: "clean_start (TableRows rws)"
    unfolding clean_start_def lines by (simp add: table_row_line_def)
  from assms p e s show ?thesis by (simp add: solid_def)
qed

lemma solid_block_pieces:
  assumes "list_all wf_block blks"
    and "\<forall>b \<in> set items. plain_item (block_text b)"
  shows "\<forall>a \<in> set (block_pieces blks items). solid a"
  using assms
proof (induction blks arbitrary: items)
  case Nil
  then show ?case by (auto simp: solid_run_piece)
next
  case (Cons b blks)
  show ?case
  proof (cases "block_type b = ''list_item''")
    case True
    with Cons.prems have "\<forall>b \<in> set (items @ [b]). plain_item (block_text b)"
      by (auto simp: wf_block_def)
    with Cons.IH [of "items @ [b]"] Cons.prems(1) True show ?thesis by simp
  next
    case False
    with Cons.prems(1) have "plain_paragraph (block_text b)"
      by (simp add: wf_block_def)
    then have "solid (Para (block_text b))" by (simp add: solid_Para)
    moreover have "\<forall>a \<in> set (block_pieces blks []). solid a"
      using Cons.IH [of "[]"] Cons.prems(1) by simp
    moreover have "items \<noteq> [] \<Longrightarrow> solid (run_piece items)"
      using Cons.prems(2) by (simp add: solid_run_piece)
    ultimately show ?thesis using False by auto
  qed
qed

lemma hd_block_pieces:
  "blks \<noteq> [] \<or> items \<noteq> [] \<Longrightarrow>
   hd (block_pieces blks items) =
     (let run = items @ takeWhile (\<lambda>b. block_type b = ''list_item'') blks
      in if run \<noteq> [] then run_piece run else Para (block_text (hd blks)))"
  by (induction blks arbitrary: items) (auto simp: Let_def)

lemma clean_start_block_pieces:
  assumes "list_all wf_block blks" and "blks \<noteq> []"
    and "list_all (\<lambda>b. bbox_x0 (hd blks) \<le> bbox_x0 b)
           (takeWhile (\<lambda>b. block_type b = ''list_item'') blks)"
  shows "clean_start (hd (block_pieces blks []))"
proof (cases "takeWhile (\<lambda>b. block_type b = ''list_item'') blks = []")
  case True
  with assms(2) have "\<not> block_type (hd blks) = ''list_item''"
    by (cases blks) (auto split: if_splits)
  with assms(1,2) have "plain_paragraph (block_text (hd blks))"
    by (cases blks) (auto simp: wf_block_def)
  with True assms(2) show ?thesis
    by (simp add: hd_block_pieces solid_Para)
next
  case False
  let ?run = "takeWhile (\<lambda>b. block_type b = ''list_item'') blks"
  from False assms(2) have "hd ?run = hd blks"
    by (cases blks) (auto split: if_splits)
  with assms(3) have "\<forall>b \<in> set ?run. bbox_x0 (hd ?run) \<le> bbox_x0 b"
    by (simp add: list_all_iff)
  from clean_start_run_piece [OF False this] False assms(2) show ?thesis
    by (simp add: hd_block_pieces)
qed

lemma canonical_shift:
  fixes x m :: rat
  assumes "of_int \<lfloor>(x - 10) / 30\<rfloor> * 30 = x - 10"
    and "of_int \<lfloor>(m - 10) / 30\<rfloor> * 30 = m - 10" and "m \<le> x"
  shows "10 + of_nat (if x - m > 15 then nat \<lfloor>(x - m) / 30\<rfloor> else 0) * 30 = 10 + (x - m)"
proof -
  define i where "i = \<lfloor>(x - 10) / 30\<rfloor>"
  define j where "j = \<lfloor>(m - 10) / 30\<rfloor>"
  from assms(1) have x: "x = 10 + of_int i * 30" by (simp add: i_def)
  from assms(2) have m: "m = 10 + of_int j * 30" by (simp add: j_def)
  from assms(3) have ji: "j \<le> i" unfolding x m by simp
  have d: "x - m = of_int (i - j) * 30" unfolding x m by (simp add: algebra_simps)
  show ?thesis
  proof (cases "i = j")
    case True
    then show ?thesis unfolding d by simp
  next
    case False
    with ji have k: "1 \<le> i - j" by simp
    then have "(1 :: rat) \<le> of_int (i - j)" by linarith
    then have "(1 :: rat) * 30 \<le> of_int (i - j) * 30"
      by (intro mult_right_mono) simp_all
    then have "(15 :: rat) < of_int (i - j) * 30" by simp
    moreover have "\<lfloor>(of_int (i - j) * 30 :: rat) / 30\<rfloor> = i - j"
      by (simp add: diff_divide_distrib)
    moreover from k have "(of_nat (nat (i - j)) :: rat) = of_int (i - j)" by simp
    ultimately show ?thesis unfolding d by simp
  qed
qed

lemma shift_run_Min:
  "items \<noteq> [] \<Longrightarrow>
   shift_run items =
     map (\<lambda>item. \<lparr>block_text = block_text item,
                   bbox = (10 + (bbox_x0 item - Min (bbox_x0 ` set items)), 0, 0, 0),
                   block_type = ''list_item''\<rparr>)
       items"
  by (cases items) (simp_all add: shift_run_def Let_def fold_min_Min)

lemma run_piece_blocks:
  assumes "\<forall>b \<in> set items. canonical_x b"
  shows "piece_blocks (run_piece items) = shift_run items"
proof (cases "items = []")
  case True
  then show ?thesis by (simp add: run_piece_def shift_run_def)
next
  case False
  let ?m = "Min (bbox_x0 ` set items)"
  have "?m \<in> bbox_x0 ` set items"
    using False by (intro Min_in) simp_all
  then obtain c where c: "c \<in> set items" "bbox_x0 c = ?m" by auto
  with assms have cm: "of_int \<lfloor>(?m - 10) / 30\<rfloor> * 30 = ?m - 10"
    by (auto simp: canonical_x_def)
  have "10 + of_nat (if bbox_x0 b - ?m > 15 then nat \<lfloor>(bbox_x0 b - ?m) / 30\<rfloor> else 0) * 30
      = 10 + (bbox_x0 b - ?m)" if b: "b \<in> set items" for b
  proof (rule canonical_shift [OF _ cm])
    from assms b show "of_int \<lfloor>(bbox_x0 b - 10) / 30\<rfloor> * 30 = bbox_x0 b - 10"
      by (simp add: canonical_x_def)
    from b show "?m \<le> bbox_x0 b" by (intro Min_le) simp_all
  qed
  then show ?thesis
    unfolding run_piece_Min [OF False] shift_run_Min [OF False]
    by (simp add: comp_def)
qed

lemma restored_blocks_pieces:
  assumes "list_all wf_block blks" and "\<forall>b \<in> set items. canonical_x b"
  shows "concat (map piece_blocks (block_pieces blks items)) = restored_blocks blks items"
  using assms
proof (induction blks arbitrary: items)
  case Nil
  then show ?case by (simp add: run_piece_blocks shift_run_def)
next
  case (Cons b blks)
  show ?case
  proof (cases "block_type b = ''list_item''")
    case True
    with Cons.prems have "\<forall>b \<in> set (items @ [b]). canonical_x b"
      by (auto simp: wf_block_def)
    with Cons.IH [of "items @ [b]"] Cons.prems(1) True show ?thesis by simp
  next
    case False
    have "concat (map piece_blocks (block_pieces blks [])) = restored_blocks blks []"
      using Cons.IH [of "[]"] Cons.prems(1) by simp
    with False Cons.prems(2) show ?thesis
      by (simp add: run_piece_blocks shift_run_def)
  qed
qed

lemma render_table_piece:
  assumes "clean_table (rows t)"
  shows "render_table t = piece_text (TableRows (rows t))"
proof -
  from assms obtain header data_rows where r: "rows t = header # data_rows"
    and len: "\<forall>row \<in> set data_rows. length row = length header"
    by (cases "rows t") (auto simp: clean_table_def list_all_iff)
  have m: "map (\<lambda>row. table_row_line
                     (take (length header) row @ replicate (length header - length row) []))
          data_rows
        = map table_row_line data_rows"
    using len by (intro map_cong) simp_all
  show ?thesis
    by (simp add: render_table_def piece_text_def r Let_def m)
qed

lemma filter_nonempty_pieces:
  "\<forall>a \<in> set atoms. solid a \<Longrightarrow>
     filter (\<lambda>p. p \<noteq> []) (map piece_text atoms) = map piece_text atoms"
  by (induction atoms) (simp_all add: solid_text)

lemma join_join: "X \<noteq> [] \<Longrightarrow> join sep (join sep X # Y) = join sep (X @ Y)"
  by (cases X) (simp_all add: join_Cons)

lemma join_pieces_not_Nil:
  "atoms \<noteq> [] \<Longrightarrow> \<forall>a \<in> set atoms. solid a \<Longrightarrow> join sep (map piece_text atoms) \<noteq> []"
  by (intro join_nonempty) (auto simp: solid_text)

lemma content_pieces_props:
  assumes b: "list_all wf_block (reading_order_blocks c)"
    and t: "list_all (\<lambda>t. clean_table (rows t)) (tables c)"
  shows "\<forall>a \<in> set (content_pieces c). solid a"
    and "concat (map piece_blocks (content_pieces c)) = restored_blocks (reading_order_blocks c) []"
    and "concat (map piece_tables (content_pieces c)) = tables c"
proof -
  from solid_block_pieces [OF b, of "[]"]
  have 1: "\<forall>a \<in> set (block_pieces (reading_order_blocks c) []). solid a" by simp
  from t have 2: "\<forall>a \<in> set (map (\<lambda>t. TableRows (rows t)) (tables c)). solid a"
    by (auto simp: list_all_iff solid_TableRows)
  from 1 2 show "\<forall>a \<in> set (content_pieces c). solid a"
    by (auto simp: content_pieces_def)
  have "concat (map piece_blocks (map (\<lambda>t. TableRows (rows t)) (tables c))) = []"
    by (induction "tables c") (simp_all add: comp_def)
  with restored_blocks_pieces [OF b, of "[]"]
  show "concat (map piece_blocks (content_pieces c)) = restored_blocks (reading_order_blocks c) []"
    by (simp add: content_pieces_def)
  have "concat (map piece_tables (map (\<lambda>t. TableRows (rows t)) xs)) = xs" for xs :: "Table list"
    by (induction xs) simp_all
  then show "concat (map piece_tables (content_pieces c)) = tables c"
    by (simp add: content_pieces_def block_pieces_tables)
qed

lemma render_content_pieces:
  assumes b: "list_all wf_block (reading_order_blocks c)"
    and t: "list_all (\<lambda>t. clean_table (rows t)) (tables c)"
    and e: "reading_order_blocks c = [] \<longrightarrow> body_text c = []"
  shows "render_content c
         = join (''\<newline>'' @ ''\<newline>'') (map piece_text (content_pieces c))"
proof -
  let ?sep = "''\<newline>'' @ ''\<newline>''"
  let ?BP = "block_pieces (reading_order_blocks c) []"
  let ?TP = "map (\<lambda>t. TableRows (rows t)) (tables c)"
  from solid_block_pieces [OF b, of "[]"] have sb: "\<forall>a \<in> set ?BP. solid a" by simp
  from t have st: "\<forall>a \<in> set ?TP. solid a"
    by (auto simp: list_all_iff solid_TableRows)
  have tp: "map render_table (tables c) = map piece_text ?TP"
    using t by (simp add: list_all_iff render_table_piece)
  have ft: "filter (\<lambda>p. p \<noteq> []) (map piece_text ?TP) = map piece_text ?TP"
    by (rule filter_nonempty_pieces [OF st])
  show ?thesis
  proof (cases "reading_order_blocks c = []")
    case True
    with e have "body_text c = []" by simp
    with True show ?thesis
      by (simp only: render_content_def Let_def content_pieces_def tp)
         (simp add: ft [simplified])
  next
    case False
    then have ne: "?BP \<noteq> []" by (simp add: block_pieces_not_Nil)
    have rb: "render_blocks (reading_order_blocks c) = join ?sep (map piece_text ?BP)"
      unfolding render_blocks_def render_blocks_loop_pieces
      using filter_nonempty_pieces [OF sb] by simp
    have nn: "join ?sep (map piece_text ?BP) \<noteq> []"
      by (rule join_pieces_not_Nil [OF ne sb])
    have "render_content c
        = join ?sep (filter (\<lambda>p. p \<noteq> []) (join ?sep (map piece_text ?BP) # map piece_text ?TP))"
      using False by (simp add: render_content_def Let_def tp rb)
    also have "\<dots> = join ?sep (join ?sep (map piece_text ?BP) # map piece_text ?TP)"
      using nn ft by simp
    also have "\<dots> = join ?sep (map piece_text ?BP @ map piece_text ?TP)"
      using ne by (intro join_join) simp
    finally show ?thesis
      by (simp add: content_pieces_def)
  qed
qed

lemma section_parts_pieces:
  "section_content (section_of s) = [] \<Longrightarrow> section_parts s = map piece_text (sec_pieces s)"
  by (simp add: section_parts_def sec_pieces_def piece_text_def heading_text_def Let_def)

lemma sections_parts_pieces:
  "\<forall>s \<in> set S. section_content (section_of s) = [] \<Longrightarrow>
     concat (map section_parts S) = map piece_text (concat (map sec_pieces S))"
  by (induction S) (simp_all add: section_parts_pieces)

lemma page_parts_join:
  assumes "wf_page secs p"
    and "\<forall>s \<in> set (find_sections_on_page secs (page_number p)). wf_section s"
  shows "join (''\<newline>'' @ ''\<newline>'') (page_parts secs p)
         = page_marker (page_number p)
             @ concat (map (\<lambda>a. ''\<newline>'' @ ''\<newline>'' @ piece_text a) (page_pieces secs p))"
    and "page_parts secs p \<noteq> []"
proof -
  let ?sep = "''\<newline>'' @ ''\<newline>''"
  let ?S = "find_sections_on_page secs (page_number p)"
  let ?CP = "content_pieces (content p)"
  from assms(1) have b: "list_all wf_block (reading_order_blocks (content p))"
    and t: "list_all (\<lambda>t. clean_table (rows t)) (tables (content p))"
    and e: "reading_order_blocks (content p) = [] \<longrightarrow> body_text (content p) = []"
    by (simp_all add: wf_page_def Let_def)
  note rc = render_content_pieces [OF b t e]
  note cp = content_pieces_props(1) [OF b t]
  have sp: "concat (map section_parts ?S) = map piece_text (concat (map sec_pieces ?S))"
    using assms(2) by (intro sections_parts_pieces) (simp add: wf_section_def)
  have tail: "concat (map (\<lambda>x. ?sep @ x)
                 (if render_content (content p) \<noteq> [] then [render_content (content p)] else []))
        = concat (map (\<lambda>a. ?sep @ piece_text a) ?CP)"
  proof (cases "?CP = []")
    case True
    then show ?thesis by (simp add: rc)
  next
    case False
    have "render_content (content p) \<noteq> []"
      unfolding rc by (rule join_pieces_not_Nil [OF False cp])
    moreover have "?sep @ join ?sep (map piece_text ?CP) = concat (map (\<lambda>a. ?sep @ a) (map piece_text ?CP))"
      using False by (intro sep_join) simp
    ultimately show ?thesis
      by (simp add: rc comp_def)
  qed
  have "join ?sep (page_parts secs p)
      = page_marker (page_number p)
          @ concat (map (\<lambda>x. ?sep @ x) (concat (map section_parts ?S)))
          @ concat (map (\<lambda>x. ?sep @ x)
              (if render_content (content p) \<noteq> [] then [render_content (content p)] else []))"
    by (simp add: page_parts_def Let_def join_Cons page_marker_def)
  also have "\<dots> = page_marker (page_number p)
             @ concat (map (\<lambda>a. ?sep @ piece_text a) (page_pieces secs p))"
    unfolding tail sp by (simp add: page_pieces_def comp_def)
  finally show "join ?sep (page_parts secs p)
         = page_marker (page_number p)
             @ concat (map (\<lambda>a. ''\<newline>'' @ ''\<newline>'' @ piece_text a) (page_pieces secs p))"
    by simp
  show "page_parts secs p \<noteq> []"
    by (simp add: page_parts_def)
qed

lemma pages_text_join:
  assumes "\<forall>p \<in> set ps. wf_page secs p
             \<and> (\<forall>s \<in> set (find_sections_on_page secs (page_number p)). wf_section s)"
    and "ps \<noteq> []"
  shows "join (''\<newline>'' @ ''\<newline>'') (concat (map (page_parts secs) ps)) @ ''\<newline>''
         = pages_text secs ps"
  using assms
proof (induction secs ps rule: pages_text.induct)
  case (1 secs)
  then show ?case by simp
next
  case (2 secs p)
  then show ?case
    using page_parts_join(1) [of secs p] by (simp add: chunk_of_def)
next
  case (3 secs p q ps)
  let ?sep = "''\<newline>'' @ ''\<newline>''"
  let ?rest = "concat (map (page_parts secs) (q # ps))"
  from 3 have ih: "join ?sep ?rest @ ''\<newline>'' = pages_text secs (q # ps)" by simp
  from 3(2) have wp: "wf_page secs p"
    "\<forall>s \<in> set (find_sections_on_page secs (page_number p)). wf_section s"
    and wq: "wf_page secs q"
    "\<forall>s \<in> set (find_sections_on_page secs (page_number q)). wf_section s"
    by simp_all
  from page_parts_join(2) [OF wq] have rn: "?rest \<noteq> []" by simp
  have "join ?sep (concat (map (page_parts secs) (p # q # ps)))
      = join ?sep (page_parts secs p) @ ?sep @ join ?sep ?rest"
    using join_append [OF page_parts_join(2) [OF wp] rn, of ?sep] by simp
  then have "join ?sep (concat (map (page_parts secs) (p # q # ps))) @ ''\<newline>''
      = join ?sep (page_parts secs p) @ ?sep @ (join ?sep ?rest @ ''\<newline>'')"
    by simp
  also have "\<dots> = pages_text secs (p # q # ps)"
    unfolding ih page_parts_join(1) [OF wp] by (simp add: chunk_of_def)
  finally show ?case .
qed

subsection \<open>Digits, the table of contents and the markers\<close>

lemma startswith_iff: "startswith s p \<longleftrightarrow> (\<exists>r. s = p @ r)"
  by (induction s p rule: startswith.induct) auto

lemma is_digit_digit_char: "d < 10 \<Longrightarrow> is_digit (digit_char d)"
  by (simp add: is_digit_def digit_char_def)

lemma str_nat_digits: "\<forall>c \<in> set (str_nat n). is_digit c"
proof (induction n rule: str_nat.induct)
  case (1 n)
  show ?case
  proof (cases "n < 10")
    case True
    then show ?thesis by (subst str_nat.simps) (simp add: is_digit_digit_char)
  next
    case False
    with 1 have "\<forall>c \<in> set (str_nat (n div 10)). is_digit c" by simp
    with False show ?thesis
      by (subst str_nat.simps) (simp add: is_digit_digit_char)
  qed
qed

lemma str_nat_not_Nil: "str_nat n \<noteq> []"
  by (subst str_nat.simps) simp

lemma py_int_snoc: "py_int (s @ [c]) = 10 * py_int s + (int (of_char c) - 48)"
  by (simp add: py_int_def)

lemma py_int_str_nat: "py_int (str_nat n) = int n"
proof (induction n rule: str_nat.induct)
  case (1 n)
  show ?case
  proof (cases "n < 10")
    case True
    then show ?thesis
      by (subst str_nat.simps) (simp add: py_int_def digit_char_def)
  next
    case False
    with 1 have "py_int (str_nat (n div 10)) = int (n div 10)" by simp
    with False show ?thesis
      by (subst str_nat.simps) (simp add: py_int_snoc digit_char_def zdiv_int zmod_int)
  qed
qed

lemma py_int_str_int: "0 \<le> n \<Longrightarrow> py_int (str_int n) = n"
  by (simp add: str_int_def py_int_str_nat)

lemma is_digit_not_lt: "is_digit c \<Longrightarrow> c \<noteq> CHR ''<'' \<and> c \<noteq> CHR '' ''"
  by (auto simp: is_digit_def)

lemma str_int_no_lt: "CHR ''<'' \<notin> set (str_int n)"
  using str_nat_digits is_digit_not_lt by (auto simp: str_int_def)

lemma is_alnum_not_special:
  "is_alnum c \<Longrightarrow> c \<noteq> CHR ''<'' \<and> c \<noteq> CHR ''\<newline>'' \<and> \<not> is_space c \<and> c \<noteq> CHR ''#''"
  by (auto simp: is_alnum_def is_space_def Let_def)

lemma alnum_title_chars:
  assumes "alnum_title t"
  shows "t \<noteq> []" and "CHR ''<'' \<notin> set t" and "CHR ''\<newline>'' \<notin> set t"
    and "\<not> is_space (hd t)" and "\<not> is_space (last t)"
proof -
  from assms show t: "t \<noteq> []" by (simp add: alnum_title_def)
  from assms have a: "\<forall>c \<in> set t. is_alnum c" by (simp add: alnum_title_def list_all_iff)
  with is_alnum_not_special show "CHR ''<'' \<notin> set t" and "CHR ''\<newline>'' \<notin> set t" by blast+
  from t a have "is_alnum (hd t)" "is_alnum (last t)" by simp_all
  with is_alnum_not_special show "\<not> is_space (hd t)" and "\<not> is_space (last t)" by blast+
qed

lemma set_strip_char: "set (strip_char ch s) \<subseteq> set s"
proof -
  have "set (strip_char ch s) \<subseteq> set (rev (dropWhile (\<lambda>c. c = ch) s))"
    by (auto simp: strip_char_def dest: set_dropWhileD)
  also have "\<dots> \<subseteq> set s"
    by (auto dest: set_dropWhileD)
  finally show ?thesis .
qed

lemma set_sub_runs: "set (sub_runs P r s) \<subseteq> insert r (set s)"
proof (induction P r s rule: sub_runs.induct)
  case (1 P r)
  show ?case by simp
next
  case (2 P r c cs)
  show ?case
  proof (cases "P c")
    case True
    with 2 have "set (sub_runs P r (dropWhile P cs)) \<subseteq> insert r (set (dropWhile P cs))"
      by simp
    also have "\<dots> \<subseteq> insert r (set cs)"
      by (auto dest: set_dropWhileD)
    finally show ?thesis using True by auto
  next
    case False
    with 2 show ?thesis by auto
  qed
qed

lemma slugify_no_lt: "CHR ''<'' \<notin> set (slugify t)"
proof
  let ?Q = "\<lambda>c. is_word c \<or> is_space c \<or> c = CHR ''-''"
  let ?f = "filter ?Q (strip (map lower_char t))"
  assume "CHR ''<'' \<in> set (slugify t)"
  then have "CHR ''<'' \<in> set (sub_runs (\<lambda>c. c = CHR ''-'') CHR ''-''
       (sub_runs (\<lambda>c. is_space c \<or> c = CHR ''_'') CHR ''-'' ?f))"
    using set_strip_char by (fastforce simp: slugify_def Let_def)
  then have "CHR ''<'' \<in> set (sub_runs (\<lambda>c. is_space c \<or> c = CHR ''_'') CHR ''-'' ?f)"
    using set_sub_runs by fastforce
  then have "CHR ''<'' \<in> set ?f"
    using set_sub_runs by fastforce
  then have "?Q CHR ''<''" by simp
  then show False
    by (simp add: is_word_def is_alnum_def is_space_def)
qed

lemma toc_line_no_lt:
  "CHR ''<'' \<notin> set t \<Longrightarrow> CHR ''<'' \<notin> set (toc_line (indent, t, ps, pe))"
  using set_indent [of indent] slugify_no_lt [of t] str_int_no_lt [of ps] str_int_no_lt [of pe]
  by (auto simp: toc_line_def)

lemma toc_entries_titles:
  "(dep, t, ps, pe) \<in> set (toc_entries depth s) \<Longrightarrow> \<exists>x \<in> set (flatten s). title (section_of x) = t"
proof (induction depth s arbitrary: dep rule: toc_entries.induct)
  case (1 depth t' l c ps' pe' subs)
  from 1(2) consider "t = t'" | sub where "sub \<in> set subs" "(dep, t, ps, pe) \<in> set (toc_entries (depth + 1) sub)"
    by auto
  then show ?case
  proof cases
    case 1
    then show ?thesis by simp
  next
    case 2
    from "1.IH" [OF 2] 2(1) show ?thesis by auto
  qed
qed

lemma join_Cons2: "ys \<noteq> [] \<Longrightarrow> join sep (x # ys) = x @ sep @ join sep ys"
  by (cases ys) simp_all

lemma join_snoc: "join sep (xs @ [y]) = concat (map (\<lambda>x. x @ sep) xs) @ y"
  by (induction xs) (simp_all add: join_Cons2)

lemma generate_toc_form:
  assumes "\<forall>s \<in> set (all_sections_of secs). wf_section s"
  shows "generate_toc secs = [] \<or>
         (\<exists>inner. CHR ''<'' \<notin> set inner
            \<and> generate_toc secs = ''<!-- toc -->'' @ inner @ ''<!-- /toc -->'')"
proof (cases "collect_toc_entries secs 0 = []")
  case True
  then show ?thesis by (simp add: generate_toc_def)
next
  case False
  let ?es = "collect_toc_entries secs 0"
  let ?inner = "''\<newline>'' @ concat (map (\<lambda>x. x @ ''\<newline>'') (map toc_line ?es))"
  have "CHR ''<'' \<notin> set (toc_line e)" if e: "e \<in> set ?es" for e
  proof -
    obtain dep t ps pe where ee: "e = (dep, t, ps, pe)" by (cases e)
    with e obtain s where "s \<in> set secs" "(dep, t, ps, pe) \<in> set (toc_entries 0 s)"
      by (auto simp: collect_toc_entries_def)
    with toc_entries_titles obtain x where "x \<in> set (all_sections_of secs)"
      "title (section_of x) = t"
      by (fastforce simp: all_sections_of_def)
    with assms have "alnum_title t" by (auto simp: wf_section_def)
    then show ?thesis unfolding ee by (intro toc_line_no_lt alnum_title_chars(2))
  qed
  then have "CHR ''<'' \<notin> set ?inner" by auto
  moreover have "generate_toc secs = ''<!-- toc -->'' @ ?inner @ ''<!-- /toc -->''"
    using False join_snoc [of "''\<newline>''" "''<!-- toc -->'' # map toc_line ?es" "''<!-- /toc -->''"]
    by (simp add: generate_toc_def Let_def)
  ultimately show ?thesis by blast
qed

lemma find_sub_plain:
  "CHR ''<'' \<notin> set inner \<Longrightarrow>
     find_sub ''<!-- /toc -->'' (inner @ ''<!-- /toc -->'' @ rest) = Some (inner, rest)"
  by (induction inner) auto

lemma strip_toc_toc:
  assumes "CHR ''<'' \<notin> set inner" and "\<not> is_space c"
  shows "strip_toc (''<!-- toc -->'' @ inner @ ''<!-- /toc -->'' @ ''\<newline>'' @ ''\<newline>'' @ c # cs)
         = strip_toc (c # cs)"
  using find_sub_plain [OF assms(1), of "''\<newline>'' @ ''\<newline>'' @ c # cs"] assms(2)
  by simp

lemma lt_starts_plain: "CHR ''<'' \<notin> set a \<Longrightarrow> lt_starts A (a @ b) = lt_starts A b"
  by (induction a) auto

lemma lt_starts_mono: "lt_starts [x] s \<Longrightarrow> lt_starts [x, y] s"
  by (induction s) auto

lemma strip_toc_id: "lt_starts [''!-- s'', ''!-- p''] s \<Longrightarrow> strip_toc s = s"
proof (induction s)
  case Nil
  show ?case by simp
next
  case (Cons c cs)
  have "\<not> startswith (c # cs) ''<!-- toc -->''"
  proof
    assume s: "startswith (c # cs) ''<!-- toc -->''"
    then have c: "c = CHR ''<''" and "startswith cs ''!-- toc -->''" by simp_all
    then obtain r where r: "cs = ''!-- toc -->'' @ r" by (auto simp: startswith_iff)
    from Cons.prems c have "startswith cs ''!-- s'' \<or> startswith cs ''!-- p''" by simp
    then show False unfolding r by simp
  qed
  with Cons show ?case by (cases "c = CHR ''<''") simp_all
qed

subsection \<open>The text of the pages is split at its markers\<close>

lemma piece_text_no_lt: "plain_lines a \<Longrightarrow> CHR ''<'' \<notin> set (piece_text a)"
  using set_join [of "''\<newline>''" "piece_lines a"]
  by (auto simp: plain_lines_def piece_text_def list_all_iff)

lemma lt_starts_chunk:
  assumes "\<forall>a \<in> set atoms.
             (\<exists>t. a = Comment (''<!-- section: '' @ t @ '' -->'') \<and> CHR ''<'' \<notin> set t)
             \<or> plain_lines a"
    and "t = [] \<or> t = ''\<newline>''"
  shows "lt_starts [''!-- s''] (chunk_of atoms t)"
  using assms(1)
proof (induction atoms)
  case Nil
  with assms(2) show ?case by (auto simp: chunk_of_def)
next
  case (Cons a atoms)
  then have ih: "lt_starts [''!-- s''] (chunk_of atoms t)" by simp
  have c: "chunk_of (a # atoms) t = ''\<newline>'' @ ''\<newline>'' @ piece_text a @ chunk_of atoms t"
    by (simp add: chunk_of_def)
  from Cons.prems consider tt where "a = Comment (''<!-- section: '' @ tt @ '' -->'')"
    "CHR ''<'' \<notin> set tt" | "plain_lines a"
    by auto
  then show ?case
  proof cases
    case 1
    have "lt_starts [''!-- s''] ((tt @ '' -->'') @ chunk_of atoms t)"
      using 1(2) ih by (subst lt_starts_plain) simp_all
    then have "lt_starts [''!-- s''] (''\<newline>'' @ ''\<newline>'' @ piece_text a @ chunk_of atoms t)"
      by (simp add: 1(1) piece_text_def)
    then show ?thesis by (simp only: c)
  next
    case 2
    from piece_text_no_lt [OF this] ih
    have "lt_starts [''!-- s''] (piece_text a @ chunk_of atoms t)"
      by (simp add: lt_starts_plain)
    then show ?thesis unfolding c by simp
  qed
qed

lemma lt_starts_marker:
  "lt_starts [''!-- s'', ''!-- p''] (page_marker n @ r) = lt_starts [''!-- s'', ''!-- p''] r"
proof -
  have "lt_starts [''!-- s'', ''!-- p''] ((str_int n @ '' -->'') @ r)
      = lt_starts [''!-- s'', ''!-- p''] r"
    using str_int_no_lt [of n] by (subst lt_starts_plain) simp_all
  then show ?thesis by (simp add: page_marker_def)
qed

lemma lt_starts_append:
  "lt_starts [x] a \<Longrightarrow> lt_starts [x, y] b \<Longrightarrow> lt_starts [x, y] (a @ b)"
proof (induction a)
  case Nil
  then show ?case by simp
next
  case (Cons c a)
  then show ?case by (auto simp: startswith_iff)
qed

lemma match_marker:
  assumes "0 \<le> n"
  shows "match_page_marker (page_marker n @ rest) = Some (str_int n, rest)"
proof -
  from assms have s: "str_int n = str_nat (nat n)" by (simp add: str_int_def)
  have d: "\<And>x. x \<in> set (str_int n) \<Longrightarrow> is_digit x"
    unfolding s using str_nat_digits by blast
  have nd: "\<not> is_digit CHR '' ''" by (simp add: is_digit_def)
  have 1: "takeWhile is_digit (str_int n @ '' -->'' @ rest) = str_int n"
    using nd by (simp add: takeWhile_append2 [OF d])
  have 2: "dropWhile is_digit (str_int n @ '' -->'' @ rest) = '' -->'' @ rest"
    using nd by (simp add: dropWhile_append2 [OF d])
  have 3: "str_int n \<noteq> []" unfolding s by (rule str_nat_not_Nil)
  show ?thesis
    using 1 2 3 by (simp add: match_page_marker_def page_marker_def Let_def)
qed

lemma no_marker:
  "c \<noteq> CHR ''<'' \<or> startswith cs ''!-- s'' \<Longrightarrow> match_page_marker (c # cs @ rest) = None"
  by (auto simp: match_page_marker_def startswith_iff)

lemma re_split_chunk:
  "lt_starts [''!-- s''] chunk \<Longrightarrow>
     re_split_pages cur (chunk @ rest) = re_split_pages (cur @ chunk) rest"
proof (induction chunk arbitrary: cur)
  case Nil
  show ?case by simp
next
  case (Cons c cs)
  then have "match_page_marker (c # cs @ rest) = None"
    by (intro no_marker) auto
  with Cons show ?case by simp
qed

lemma re_split_marker:
  assumes "0 \<le> n"
  shows "re_split_pages cur (page_marker n @ rest) = cur # str_int n # re_split_pages [] rest"
proof -
  obtain c cs where c: "page_marker n @ rest = c # cs"
    by (simp add: page_marker_def)
  have "re_split_pages cur (c # cs) = cur # str_int n # re_split_pages [] rest"
    using match_marker [OF assms, of rest] unfolding c by simp
  then show ?thesis unfolding c .
qed

lemma page_pieces_shape:
  assumes "\<forall>s \<in> set (find_sections_on_page secs (page_number p)). wf_section s"
    and "wf_page secs p"
  shows "\<forall>a \<in> set (page_pieces secs p).
           (\<exists>t. a = Comment (''<!-- section: '' @ t @ '' -->'') \<and> CHR ''<'' \<notin> set t)
           \<or> plain_lines a"
proof
  fix a assume "a \<in> set (page_pieces secs p)"
  then consider s where "s \<in> set (find_sections_on_page secs (page_number p))" "a \<in> set (sec_pieces s)"
    | "a \<in> set (content_pieces (content p))"
    by (auto simp: page_pieces_def)
  then show "(\<exists>t. a = Comment (''<!-- section: '' @ t @ '' -->'') \<and> CHR ''<'' \<notin> set t)
           \<or> plain_lines a"
  proof cases
    case 1
    with assms(1) have t: "alnum_title (title (section_of s))"
      by (auto simp: wf_section_def)
    from 1(2) consider "a = Comment (''<!-- section: '' @ title (section_of s) @ '' -->'')"
      | "a = Heading (heading_text s)"
      by (auto simp: sec_pieces_def)
    then show ?thesis
    proof cases
      case 1
      with alnum_title_chars(2) [OF t] show ?thesis by blast
    next
      case 2
      have "CHR ''\<newline>'' \<notin> set (heading_text s)" "CHR ''<'' \<notin> set (heading_text s)"
        using alnum_title_chars(2,3) [OF t] by (auto simp: heading_text_def)
      with 2 show ?thesis by (simp add: plain_lines_def)
    qed
  next
    case 2
    from assms(2) have "list_all wf_block (reading_order_blocks (content p))"
      and "list_all (\<lambda>t. clean_table (rows t)) (tables (content p))"
      by (simp_all add: wf_page_def Let_def)
    from content_pieces_props(1) [OF this] 2 show ?thesis
      by (auto simp: solid_def)
  qed
qed

lemma re_split_pages_text:
  assumes "\<forall>p \<in> set ps. wf_page secs p
             \<and> (\<forall>s \<in> set (find_sections_on_page secs (page_number p)). wf_section s)"
    and "ps \<noteq> []"
  shows "re_split_pages cur (pages_text secs ps)
         = cur # concat (map (\<lambda>(n, c). [str_int n, c]) (page_chunks secs ps))"
  using assms
proof (induction secs ps arbitrary: cur rule: pages_text.induct)
  case (1 secs)
  then show ?case by simp
next
  case (2 secs p)
  then have n: "0 \<le> page_number p" by (simp add: wf_page_def Let_def)
  from 2 have "lt_starts [''!-- s''] (chunk_of (page_pieces secs p) [])"
    by (intro lt_starts_chunk page_pieces_shape) simp_all
  from re_split_chunk [OF this, of "[]" "[]"] show ?case
    by (simp add: re_split_marker [OF n])
next
  case (3 secs p q ps)
  then have n: "0 \<le> page_number p" by (simp add: wf_page_def Let_def)
  from 3(2) have "lt_starts [''!-- s''] (chunk_of (page_pieces secs p) ''\<newline>'')"
    by (intro lt_starts_chunk page_pieces_shape) simp_all
  from re_split_chunk [OF this, of "[]" "pages_text secs (q # ps)"] 3 show ?case
    by (simp add: re_split_marker [OF n])
qed

lemma page_pairs_chunks:
  "\<forall>p \<in> set ps. 0 \<le> page_number p \<Longrightarrow>
     page_pairs (concat (map (\<lambda>(n, c). [str_int n, c]) (page_chunks secs ps)))
     = page_chunks secs ps"
  by (induction secs ps rule: page_chunks.induct) (simp_all add: py_int_str_int)

lemma lt_starts_pages_text:
  assumes "\<forall>p \<in> set ps. wf_page secs p
             \<and> (\<forall>s \<in> set (find_sections_on_page secs (page_number p)). wf_section s)"
  shows "lt_starts [''!-- s'', ''!-- p''] (pages_text secs ps)"
  using assms
proof (induction secs ps rule: pages_text.induct)
  case (1 secs)
  then show ?case by simp
next
  case (2 secs p)
  then have "lt_starts [''!-- s''] (chunk_of (page_pieces secs p) [])"
    by (intro lt_starts_chunk page_pieces_shape) simp_all
  then show ?case
    by (simp add: lt_starts_marker lt_starts_mono)
next
  case (3 secs p q ps)
  from 3(2) have "lt_starts [''!-- s''] (chunk_of (page_pieces secs p) ''\<newline>'')"
    by (intro lt_starts_chunk page_pieces_shape) simp_all
  moreover from 3 have "lt_starts [''!-- s'', ''!-- p''] (pages_text secs (q # ps))" by simp
  ultimately show ?case
    by (simp add: lt_starts_marker lt_starts_append)
qed

lemma pages_text_starts:
  "ps \<noteq> [] \<Longrightarrow> \<exists>cs. pages_text secs ps = CHR ''<'' # cs"
  by (induction secs ps rule: pages_text.induct) (simp_all add: page_marker_def)

lemma split_by_pages_text:
  assumes "\<forall>p \<in> set ps. wf_page secs p
             \<and> (\<forall>s \<in> set (find_sections_on_page secs (page_number p)). wf_section s)"
    and "ps \<noteq> []"
  shows "split_by_pages (pages_text secs ps) = page_chunks secs ps"
proof -
  from assms(1) have "\<forall>p \<in> set ps. 0 \<le> page_number p"
    by (auto simp: wf_page_def Let_def)
  from page_pairs_chunks [OF this] show ?thesis
    by (simp add: split_by_pages_def re_split_pages_text [OF assms])
qed

subsection \<open>The sections and the content of a chunk\<close>

lemma comment_piece:
  assumes "alnum_title t"
  shows "match_section_comment (strip (''<!-- section: '' @ t @ '' -->'')) = Some t"
    and "section_comment (Comment (''<!-- section: '' @ t @ '' -->''))"
proof -
  let ?c = "''<!-- section: '' @ t @ '' -->''"
  note t = alnum_title_chars [OF assms]
  have s: "strip ?c = ?c" by (rule strip_id) (simp_all add: is_space_def)
  have e: "endswith ?c '' -->''" by (simp add: startswith_iff)
  from t(1) have l: "19 \<le> length ?c" by (cases t) simp_all
  from e l show m: "match_section_comment (strip ?c) = Some t"
    unfolding s by (simp add: match_section_comment_def)
  from t(3) m show "section_comment (Comment ?c)"
    by (simp add: section_comment_def)
qed

lemma heading_piece:
  assumes "alnum_title t" and "1 \<le> n" and "n \<le> 6"
  shows "heading_line (replicate n CHR ''#'' @ '' '' @ t)"
    and "match_heading (strip (replicate n CHR ''#'' @ '' '' @ t)) = Some n"
    and "clean_start (Heading (replicate n CHR ''#'' @ '' '' @ t))"
    and "solid (Heading (replicate n CHR ''#'' @ '' '' @ t))"
proof -
  let ?h = "replicate n CHR ''#'' @ '' '' @ t"
  note t = alnum_title_chars [OF assms(1)]
  from assms(2) obtain k where n: "n = Suc k" by (cases n) simp_all
  from t(1) obtain d r where dr: "t = d # r" by (cases t) simp_all
  have hd: "hd ?h = CHR ''#''" by (simp add: n)
  from t(1) have last: "last ?h = last t" by simp
  have ns: "\<not> is_space CHR ''#''" by (simp add: is_space_def)
  from hd last t(5) ns have s: "strip ?h = ?h" by (intro strip_id) simp_all
  have tw: "takeWhile (\<lambda>c. c = CHR ''#'') ?h = replicate n CHR ''#''"
    by (induction n) simp_all
  have m: "match_heading ?h = Some n"
    using assms(2,3) tw unfolding dr by (simp add: match_heading_def Let_def)
  then show "match_heading (strip ?h) = Some n" by (simp only: s)
  have li: "match_list_item ?h = None"
    using ns by (simp add: match_list_item_def n Let_def)
  have nb: "\<not> startswith ?h ''|''" by (simp add: n)
  from t(2,3) have nl: "CHR ''\<newline>'' \<notin> set ?h" "CHR ''<'' \<notin> set ?h" by auto
  from s m li nb nl show h: "heading_line ?h"
    by (simp add: heading_line_def)
  from ns show "clean_start (Heading ?h)"
    by (simp add: clean_start_def n)
  from h nl t(1,5) show "solid (Heading ?h)"
    by (simp add: solid_def plain_lines_def clean_end_def)
qed

lemma sec_pieces_props:
  assumes "wf_section s"
  shows "sec_pieces s = [Comment (''<!-- section: '' @ title (section_of s) @ '' -->''),
                         Heading (heading_text s)]"
    and "section_comment (Comment (''<!-- section: '' @ title (section_of s) @ '' -->''))"
    and "solid (Heading (heading_text s))" and "clean_start (Heading (heading_text s))"
    and "match_section_comment (strip (''<!-- section: '' @ title (section_of s) @ '' -->''))
         = Some (title (section_of s))"
    and "match_heading (strip (heading_text s)) = Some (nat (level (section_of s)))"
    and "strip (heading_text s) \<noteq> []"
proof -
  from assms have t: "alnum_title (title (section_of s))"
    and lv: "1 \<le> level (section_of s)" "level (section_of s) \<le> 6"
    by (simp_all add: wf_section_def)
  from lv have l: "1 \<le> nat (level (section_of s))" "nat (level (section_of s)) \<le> 6"
    by linarith+
  show "sec_pieces s = [Comment (''<!-- section: '' @ title (section_of s) @ '' -->''),
                         Heading (heading_text s)]"
    by (simp add: sec_pieces_def)
  from comment_piece [OF t]
  show "section_comment (Comment (''<!-- section: '' @ title (section_of s) @ '' -->''))"
    and "match_section_comment (strip (''<!-- section: '' @ title (section_of s) @ '' -->''))
         = Some (title (section_of s))"
    by simp_all
  from heading_piece [OF t l]
  show "solid (Heading (heading_text s))" and "clean_start (Heading (heading_text s))"
    and m: "match_heading (strip (heading_text s)) = Some (nat (level (section_of s)))"
    by (simp_all add: heading_text_def)
  from m show "strip (heading_text s) \<noteq> []"
    by (auto simp: match_heading_def)
qed

lemma parse_sections_plain: "\<forall>l \<in> set ls. CHR ''<'' \<notin> set l \<Longrightarrow> parse_sections pn ls = []"
  by (induction ls) (simp_all add: no_lt_no_comment)

lemma comment_prefix: "match_section_comment s \<noteq> None \<Longrightarrow> match_comment_prefix s"
  by (auto simp: match_section_comment_def match_comment_prefix_def startswith_iff
      split: if_splits)

lemma parse_sections_dropWhile:
  "parse_sections pn (dropWhile (\<lambda>l. \<not> match_comment_prefix (strip l)) ls) = parse_sections pn ls"
proof (induction ls)
  case Nil
  show ?case by simp
next
  case (Cons l ls)
  show ?case
  proof (cases "match_comment_prefix (strip l)")
    case True
    then show ?thesis by simp
  next
    case False
    with comment_prefix have "match_section_comment (strip l) = None" by blast
    with False Cons show ?thesis by simp
  qed
qed

lemma match_section_comment_Nil: "match_section_comment [] = None"
  by (simp add: match_section_comment_def)

lemma parse_sections_step:
  assumes "match_section_comment (strip c) = Some t" and "strip h \<noteq> []"
    and "match_heading (strip h) = Some n"
  shows "\<exists>body. parse_sections pn ([] # c # [] # h # ls)
           = DocumentSection t (int n) body pn pn [] # parse_sections pn ls"
  using assms by (simp add: Let_def parse_sections_dropWhile match_section_comment_Nil)

lemma parse_sections_secs:
  assumes "\<forall>s \<in> set S. wf_section s" and "\<forall>l \<in> set plain. CHR ''<'' \<notin> set l"
  shows "map (\<lambda>x. (title x, level x, page_start x, page_end x, subsections x))
           (parse_sections pn (concat (map section_lines S) @ plain))
         = map (\<lambda>s. (title (section_of s), level (section_of s), pn, pn, [])) S"
  using assms(1)
proof (induction S)
  case Nil
  with assms(2) show ?case by (simp add: parse_sections_plain)
next
  case (Cons s S)
  then have w: "wf_section s" by simp
  note sp = sec_pieces_props [OF w]
  from parse_sections_step [OF sp(5) sp(7) sp(6), of pn "concat (map section_lines S) @ plain"]
  obtain body where "parse_sections pn (concat (map section_lines (s # S)) @ plain)
      = DocumentSection (title (section_of s)) (int (nat (level (section_of s)))) body pn pn []
          # parse_sections pn (concat (map section_lines S) @ plain)"
    by (auto simp: section_lines_def)
  moreover from w have "int (nat (level (section_of s))) = level (section_of s)"
    by (simp add: wf_section_def)
  ultimately show ?case using Cons by simp
qed

lemma page_pieces_lines:
  assumes w: "wf_page secs p"
    and s: "\<forall>s \<in> set (find_sections_on_page secs (page_number p)). wf_section s"
  shows "\<forall>a \<in> set (page_pieces secs p). section_comment a \<or> solid a"
    and "\<forall>a \<in> set (page_pieces secs p). piece_lines a \<noteq> []
           \<and> (\<forall>l \<in> set (piece_lines a). CHR ''\<newline>'' \<notin> set l)"
proof -
  from w have b: "list_all wf_block (reading_order_blocks (content p))"
    and t: "list_all (\<lambda>t. clean_table (rows t)) (tables (content p))"
    by (simp_all add: wf_page_def Let_def)
  note cp = content_pieces_props(1) [OF b t]
  show 1: "\<forall>a \<in> set (page_pieces secs p). section_comment a \<or> solid a"
  proof
    fix a assume "a \<in> set (page_pieces secs p)"
    then consider x where "x \<in> set (find_sections_on_page secs (page_number p))" "a \<in> set (sec_pieces x)"
      | "a \<in> set (content_pieces (content p))"
      by (auto simp: page_pieces_def)
    then show "section_comment a \<or> solid a"
    proof cases
      case 1
      with s have "wf_section x" by simp
      from sec_pieces_props(1,2,3) [OF this] 1(2) show ?thesis by auto
    next
      case 2
      with cp show ?thesis by simp
    qed
  qed
  show "\<forall>a \<in> set (page_pieces secs p). piece_lines a \<noteq> []
           \<and> (\<forall>l \<in> set (piece_lines a). CHR ''\<newline>'' \<notin> set l)"
  proof
    fix a assume "a \<in> set (page_pieces secs p)"
    with 1 have "section_comment a \<or> solid a" by simp
    then show "piece_lines a \<noteq> [] \<and> (\<forall>l \<in> set (piece_lines a). CHR ''\<newline>'' \<notin> set l)"
      by (cases a) (auto simp: section_comment_def solid_def plain_lines_def list_all_iff)
  qed
qed

lemma section_lines_concat:
  "\<forall>s \<in> set S. wf_section s \<Longrightarrow>
     concat (map (\<lambda>a. [] # piece_lines a) (concat (map sec_pieces S)))
     = concat (map section_lines S)"
  by (induction S) (simp_all add: sec_pieces_def section_lines_def)

lemma parse_sections_chunk:
  assumes w: "wf_page secs p"
    and s: "\<forall>s \<in> set (find_sections_on_page secs (page_number p)). wf_section s"
    and t: "t = [] \<or> t = ''\<newline>''"
  shows "map (\<lambda>x. (title x, level x, page_start x, page_end x, subsections x))
           (parse_sections_from_chunk (chunk_of (page_pieces secs p) t) pn)
         = map (\<lambda>s. (title (section_of s), level (section_of s), pn, pn, []))
             (find_sections_on_page secs (page_number p))"
proof -
  let ?S = "find_sections_on_page secs (page_number p)"
  let ?CP = "content_pieces (content p)"
  let ?plain = "concat (map (\<lambda>a. [] # piece_lines a) ?CP) @ split_on CHR ''\<newline>'' t"
  from w have b: "list_all wf_block (reading_order_blocks (content p))"
    and tb: "list_all (\<lambda>t. clean_table (rows t)) (tables (content p))"
    by (simp_all add: wf_page_def Let_def)
  note cp = content_pieces_props(1) [OF b tb]
  have lines: "split_on CHR ''\<newline>'' (chunk_of (page_pieces secs p) t)
      = [] # concat (map (\<lambda>a. [] # piece_lines a) (page_pieces secs p)) @ split_on CHR ''\<newline>'' t"
    unfolding chunk_of_def by (rule chunk_lines [OF page_pieces_lines(2) [OF w s]])
  have "concat (map (\<lambda>a. [] # piece_lines a) (page_pieces secs p)) @ split_on CHR ''\<newline>'' t
      = concat (map section_lines ?S) @ ?plain"
    by (simp add: page_pieces_def section_lines_concat [OF s])
  with lines have l: "split_on CHR ''\<newline>'' (chunk_of (page_pieces secs p) t)
      = [] # concat (map section_lines ?S) @ ?plain"
    by simp
  have pl: "\<forall>l \<in> set ?plain. CHR ''<'' \<notin> set l"
  proof
    fix l assume "l \<in> set ?plain"
    then consider "l = []" | a where "a \<in> set ?CP" "l \<in> set (piece_lines a)"
      using t by (auto split: if_splits)
    then show "CHR ''<'' \<notin> set l"
    proof cases
      case 1
      then show ?thesis by simp
    next
      case 2
      with cp have "plain_lines a" by (simp add: solid_def)
      with 2(2) show ?thesis by (auto simp: plain_lines_def list_all_iff)
    qed
  qed
  have "parse_sections pn ([] # concat (map section_lines ?S) @ ?plain)
      = parse_sections pn (concat (map section_lines ?S) @ ?plain)"
    by (simp add: match_section_comment_Nil)
  with parse_sections_secs [OF s pl, of pn] show ?thesis
    by (simp only: parse_sections_from_chunk_def l)
qed

subsection \<open>The pages and the sections that come back\<close>

lemma solid_not_comment: "solid a \<Longrightarrow> \<not> section_comment a"
  by (cases a) (simp_all add: solid_def section_comment_def)

lemma filter_solid: "\<forall>a \<in> set atoms. solid a \<Longrightarrow> filter (\<lambda>a. \<not> section_comment a) atoms = atoms"
  by (induction atoms) (simp_all add: solid_not_comment)

lemma clean_start_content:
  assumes b: "list_all wf_block (reading_order_blocks c)"
    and t: "list_all (\<lambda>t. clean_table (rows t)) (tables c)"
    and f: "list_all (\<lambda>b. bbox_x0 (hd (reading_order_blocks c)) \<le> bbox_x0 b)
              (takeWhile (\<lambda>b. block_type b = ''list_item'') (reading_order_blocks c))"
    and ne: "content_pieces c \<noteq> []"
  shows "clean_start (hd (content_pieces c))"
proof (cases "reading_order_blocks c = []")
  case True
  with ne obtain tb tbs where tt: "tables c = tb # tbs"
    by (cases "tables c") (simp_all add: content_pieces_def)
  with t have "clean_table (rows tb)" by simp
  with True tt show ?thesis
    by (simp add: content_pieces_def solid_TableRows)
next
  case False
  then have "block_pieces (reading_order_blocks c) [] \<noteq> []"
    by (simp add: block_pieces_not_Nil)
  then have "hd (content_pieces c) = hd (block_pieces (reading_order_blocks c) [])"
    by (simp add: content_pieces_def)
  with clean_start_block_pieces [OF b False f] show ?thesis by simp
qed

lemma sec_pieces_blocks:
  "concat (map piece_blocks (concat (map sec_pieces S))) = map heading_block S"
  by (induction S) (simp_all add: sec_pieces_def heading_block_def)

lemma sec_pieces_tables: "concat (map piece_tables (concat (map sec_pieces S))) = []"
  by (induction S) (simp_all add: sec_pieces_def)

lemma page_content:
  assumes w: "wf_page secs p"
    and s: "\<forall>s \<in> set (find_sections_on_page secs (page_number p)). wf_section s"
    and t: "t = [] \<or> t = ''\<newline>''"
  shows "parse_extracted_content (strip_section_markers (chunk_of (page_pieces secs p) t))
         = Some (content (restored_page secs p))"
proof -
  let ?S = "find_sections_on_page secs (page_number p)"
  let ?CP = "content_pieces (content p)"
  from w have b: "list_all wf_block (reading_order_blocks (content p))"
    and tb: "list_all (\<lambda>t. clean_table (rows t)) (tables (content p))"
    and f: "?S = [] \<longrightarrow>
              list_all (\<lambda>b. bbox_x0 (hd (reading_order_blocks (content p))) \<le> bbox_x0 b)
                (takeWhile (\<lambda>b. block_type b = ''list_item'') (reading_order_blocks (content p)))"
    by (simp_all add: wf_page_def Let_def)
  note cp = content_pieces_props [OF b tb]
  from page_pieces_lines(1) [OF w s]
  have atoms: "\<forall>a \<in> set (page_pieces secs p). section_comment a
                 \<or> (good_piece a \<and> a \<noteq> Blank \<and> plain_lines a \<and> clean_end a)"
    by (simp add: solid_def)
  have first: "case filter (\<lambda>a. \<not> section_comment a) (page_pieces secs p) of
                 [] \<Rightarrow> True | a # r \<Rightarrow> clean_start a"
  proof (cases ?S)
    case Nil
    then have pp: "page_pieces secs p = ?CP" by (simp add: page_pieces_def)
    show ?thesis
    proof (cases "?CP = []")
      case True
      then show ?thesis by (simp add: pp)
    next
      case False
      from Nil f have "list_all (\<lambda>b. bbox_x0 (hd (reading_order_blocks (content p))) \<le> bbox_x0 b)
                (takeWhile (\<lambda>b. block_type b = ''list_item'') (reading_order_blocks (content p)))"
        by simp
      from clean_start_content [OF b tb this False] False show ?thesis
        unfolding pp filter_solid [OF cp(1)] by (cases ?CP) simp_all
    qed
  next
    case (Cons x S')
    with s have "wf_section x" by simp
    from sec_pieces_props(1,2,3,4) [OF this] show ?thesis
      by (simp add: page_pieces_def Cons solid_not_comment)
  qed
  have "parsed_content (page_pieces secs p) = content (restored_page secs p)"
    by (simp add: parsed_content_def restored_page_def Let_def page_pieces_def
        sec_pieces_blocks sec_pieces_tables cp(2,3))
  with parse_chunk_content [OF atoms first t] show ?thesis
    by (simp only: chunk_of_def)
qed

lemma restored_page_fields:
  "\<lparr>page_number = page_number p, classification = NATIVE_TEXT,
    content = content (restored_page secs p), ocr_confidence = None\<rparr> = restored_page secs p"
  by (simp add: restored_page_def Let_def)

lemma parse_pages_chunks:
  assumes "\<forall>p \<in> set ps. wf_page secs p
             \<and> (\<forall>s \<in> set (find_sections_on_page secs (page_number p)). wf_section s)"
  shows "\<exists>cells. parse_pages (page_chunks secs ps) = Some (cells, map (restored_page secs) ps)
           \<and> map (\<lambda>x. (title x, level x, page_start x, page_end x, subsections x)) cells
             = concat (map (\<lambda>p. map (\<lambda>s. (title (section_of s), level (section_of s),
                                            page_number p, page_number p, []))
                                  (find_sections_on_page secs (page_number p))) ps)"
  using assms
proof (induction secs ps rule: page_chunks.induct)
  case (1 secs)
  show ?case by simp
next
  case (2 secs p)
  then have w: "wf_page secs p"
    and s: "\<forall>s \<in> set (find_sections_on_page secs (page_number p)). wf_section s"
    by simp_all
  from page_content [OF w s, of "[]"] parse_sections_chunk [OF w s, of "[]" "page_number p"]
  show ?case
    by (simp add: restored_page_fields)
next
  case (3 secs p q ps)
  then have w: "wf_page secs p"
    and s: "\<forall>s \<in> set (find_sections_on_page secs (page_number p)). wf_section s"
    by simp_all
  from 3 obtain cells where c: "parse_pages (page_chunks secs (q # ps))
        = Some (cells, map (restored_page secs) (q # ps))"
    and k: "map (\<lambda>x. (title x, level x, page_start x, page_end x, subsections x)) cells
             = concat (map (\<lambda>p. map (\<lambda>s. (title (section_of s), level (section_of s),
                                            page_number p, page_number p, []))
                                  (find_sections_on_page secs (page_number p))) (q # ps))"
    by auto
  let ?here = "parse_sections_from_chunk (chunk_of (page_pieces secs p) ''\<newline>'') (page_number p)"
  from page_content [OF w s, of "''\<newline>''"] c
  have "parse_pages (page_chunks secs (p # q # ps))
      = Some (?here @ cells, map (restored_page secs) (p # q # ps))"
    by (simp add: restored_page_fields)
  moreover from parse_sections_chunk [OF w s, of "''\<newline>''" "page_number p"] k
  have "map (\<lambda>x. (title x, level x, page_start x, page_end x, subsections x)) (?here @ cells)
        = concat (map (\<lambda>p. map (\<lambda>s. (title (section_of s), level (section_of s),
                                            page_number p, page_number p, []))
                                  (find_sections_on_page secs (page_number p))) (p # q # ps))"
    by simp
  ultimately show ?case by blast
qed

lemma sections_from_page:
  "s \<in> set (sections_from n x) \<Longrightarrow> page_start (section_of s) = n"
proof (induction n x rule: sections_from.induct)
  case (1 page_no t l c ps pe subs)
  from 1(2) consider "s = Section (DocumentSection t l c ps pe subs)" "ps = page_no"
    | sub where "sub \<in> set subs" "s \<in> set (sections_from page_no sub)"
    by (auto split: if_splits)
  then show ?case
  proof cases
    case 1
    then show ?thesis by simp
  next
    case 2
    with "1.IH" show ?thesis by blast
  qed
qed

lemma find_sections_page_start:
  "map (\<lambda>s. (title (section_of s), level (section_of s), n, n, []))
     (find_sections_on_page secs n)
   = map (\<lambda>s. (title (section_of s), level (section_of s), page_start (section_of s),
               page_start (section_of s), []))
       (find_sections_on_page secs n)"
  using sections_from_page by (intro map_cong) (auto simp: find_sections_on_page_def)

lemma all_sections_Nil: "all_sections_of secs = [] \<Longrightarrow> secs = []"
proof (cases secs)
  case Nil
  then show ?thesis by simp
next
  case (Cons s ss)
  assume "all_sections_of secs = []"
  with Cons have "flatten s = []" by (simp add: all_sections_of_def)
  then show ?thesis by (cases s rule: flatten.cases) simp
qed

lemma from_markdown_Nil: "from_markdown [] = Some \<lparr>sections = [], pages = []\<rparr>"
  by (simp add: from_markdown_def)

lemma round_trip_core:
  assumes pages: "\<forall>p \<in> set (pages d). wf_page (sections d) p"
    and secs: "\<forall>s \<in> set (all_sections_of (sections d)). wf_section s"
    and order: "concat (map (\<lambda>p. find_sections_on_page (sections d) (page_number p)) (pages d))
                = all_sections_of (sections d)"
  shows "\<exists>cells. from_markdown (to_markdown d)
           = Some \<lparr>sections = forest (md_build_section_hierarchy cells [0..<length cells]),
                   pages = map (restored_page (sections d)) (pages d)\<rparr>
         \<and> map (\<lambda>x. (title x, level x, page_start x, page_end x, subsections x)) cells
           = map (\<lambda>s. (title (section_of s), level (section_of s), page_start (section_of s),
                       page_start (section_of s), []))
               (all_sections_of (sections d))"
proof (cases "pages d = []")
  case True
  with order have "all_sections_of (sections d) = []" by simp
  then have s: "sections d = []" by (rule all_sections_Nil)
  have "to_markdown d = []"
    by (simp add: to_markdown_def True s generate_toc_def collect_toc_entries_def)
  then have "from_markdown (to_markdown d)
      = Some \<lparr>sections = forest (md_build_section_hierarchy [] [0..<length ([] :: heap)]),
                   pages = map (restored_page (sections d)) (pages d)\<rparr>"
    by (simp add: from_markdown_Nil True forest_def md_build_section_hierarchy_def)
  moreover have "map (\<lambda>x. (title x, level x, page_start x, page_end x, subsections x)) ([] :: heap)
           = map (\<lambda>s. (title (section_of s), level (section_of s), page_start (section_of s),
                       page_start (section_of s), []))
               (all_sections_of (sections d))"
    by (simp add: s all_sections_of_def)
  ultimately show ?thesis by blast
next
  case False
  let ?secs = "sections d"
  let ?T = "pages_text ?secs (pages d)"
  have wf: "\<forall>p \<in> set (pages d). wf_page ?secs p
             \<and> (\<forall>s \<in> set (find_sections_on_page ?secs (page_number p)). wf_section s)"
  proof (intro ballI conjI)
    fix p assume p: "p \<in> set (pages d)"
    with pages show "wf_page ?secs p" by simp
    fix s assume "s \<in> set (find_sections_on_page ?secs (page_number p))"
    with p have "s \<in> set (concat (map (\<lambda>p. find_sections_on_page ?secs (page_number p)) (pages d)))"
      by auto
    with secs show "wf_section s" by (simp only: order)
  qed
  from pages_text_starts [OF False] obtain cs where T: "?T = CHR ''<'' # cs" by blast
  have P: "concat (map (page_parts ?secs) (pages d)) \<noteq> []"
  proof -
    obtain p ps where "pages d = p # ps" using False by (cases "pages d") auto
    with page_parts_join(2) [of ?secs p] wf show ?thesis by simp
  qed
  have tm: "to_markdown d
      = (if generate_toc ?secs \<noteq> [] then generate_toc ?secs @ ''\<newline>'' @ ''\<newline>'' else []) @ ?T"
  proof (cases "generate_toc ?secs = []")
    case True
    with P pages_text_join [OF wf False] show ?thesis
      by (simp add: to_markdown_def Let_def)
  next
    case nt: False
    have "join (''\<newline>'' @ ''\<newline>'') ([generate_toc ?secs] @ concat (map (page_parts ?secs) (pages d)))
        = join (''\<newline>'' @ ''\<newline>'') [generate_toc ?secs] @ (''\<newline>'' @ ''\<newline>'')
            @ join (''\<newline>'' @ ''\<newline>'') (concat (map (page_parts ?secs) (pages d)))"
      using P by (intro join_append) simp_all
    with nt P pages_text_join [OF wf False] show ?thesis
      by (simp add: to_markdown_def Let_def)
  qed
  have st: "strip_toc (to_markdown d) = ?T"
  proof (cases "generate_toc ?secs = []")
    case True
    with tm lt_starts_pages_text [OF wf] show ?thesis
      by (simp add: strip_toc_id)
  next
    case nt: False
    with generate_toc_form [OF secs] obtain inner where i: "CHR ''<'' \<notin> set inner"
      and g: "generate_toc ?secs = ''<!-- toc -->'' @ inner @ ''<!-- /toc -->''"
      by blast
    have ns: "\<not> is_space CHR ''<''" by (simp add: is_space_def)
    from nt tm have "to_markdown d
        = ''<!-- toc -->'' @ inner @ ''<!-- /toc -->'' @ ''\<newline>'' @ ''\<newline>'' @ CHR ''<'' # cs"
      by (simp add: g T)
    then have "strip_toc (to_markdown d) = strip_toc (CHR ''<'' # cs)"
      by (simp only: strip_toc_toc [OF i ns])
    also have "\<dots> = ?T"
      unfolding T [symmetric] by (rule strip_toc_id [OF lt_starts_pages_text [OF wf]])
    finally show ?thesis .
  qed
  have "CHR ''<'' \<in> set (to_markdown d)"
    unfolding tm T by simp
  moreover have "\<not> is_space CHR ''<''" by (simp add: is_space_def)
  ultimately have nb: "strip (to_markdown d) \<noteq> []"
    unfolding strip_eq_Nil_iff by blast
  from parse_pages_chunks [OF wf] obtain cells
    where c: "parse_pages (page_chunks ?secs (pages d))
                = Some (cells, map (restored_page ?secs) (pages d))"
      and k: "map (\<lambda>x. (title x, level x, page_start x, page_end x, subsections x)) cells
             = concat (map (\<lambda>p. map (\<lambda>s. (title (section_of s), level (section_of s),
                                            page_number p, page_number p, []))
                                  (find_sections_on_page ?secs (page_number p))) (pages d))"
    by blast
  have "from_markdown (to_markdown d)
      = Some \<lparr>sections = forest (md_build_section_hierarchy cells [0..<length cells]),
              pages = map (restored_page ?secs) (pages d)\<rparr>"
    using nb by (simp add: from_markdown_def st split_by_pages_text [OF wf False] c)
  moreover have "map (\<lambda>x. (title x, level x, page_start x, page_end x, subsections x)) cells
           = map (\<lambda>s. (title (section_of s), level (section_of s), page_start (section_of s),
                       page_start (section_of s), []))
               (all_sections_of ?secs)"
    unfolding k order [symmetric]
    by (simp add: map_concat find_sections_page_start comp_def)
  ultimately show ?thesis by blast
qed

subsection \<open>The builder keeps the order of the sections\<close>

lemma flatten_section_tree:
  "map (\<lambda>s. sec_key (section_of s)) (flatten (section_tree f h a))
   = map (\<lambda>b. sec_key (h ! b)) (addr_pre f h a)"
proof (induction f arbitrary: a)
  case 0
  show ?case by (simp add: sec_key_def)
next
  case (Suc f)
  have "map (\<lambda>s. sec_key (section_of s)) (concat (map flatten (map (section_tree f h) subs)))
      = map (\<lambda>b. sec_key (h ! b)) (concat (map (addr_pre f h) subs))" for subs
    by (induction subs) (simp_all add: Suc)
  then show ?case by (simp add: sec_key_def)
qed

lemma ordered_child:
  assumes "ordered h k" and "a < length h" and "b \<in> set (subsections (h ! a))"
  shows "a < b" and "b < k" and "b < length h"
proof -
  from assms have "a < b \<and> b < k" unfolding ordered_def by blast
  moreover from assms(1) have "k \<le> length h" by (simp add: ordered_def)
  ultimately show "a < b" and "b < k" and "b < length h" by simp_all
qed

lemma addr_pre_fuel:
  assumes "ordered h k"
  shows "a < length h \<Longrightarrow> length h - a \<le> f \<Longrightarrow> length h - a \<le> g \<Longrightarrow>
           addr_pre f h a = addr_pre g h a"
proof (induction f arbitrary: g a)
  case 0
  then show ?case by simp
next
  case (Suc f)
  from Suc.prems obtain g' where g: "g = Suc g'" by (cases g) auto
  have "addr_pre f h b = addr_pre g' h b" if "b \<in> set (subsections (h ! a))" for b
  proof -
    from ordered_child [OF assms Suc.prems(1) that] have "a < b" "b < length h"
      by simp_all
    with Suc.prems g show ?thesis by (intro Suc.IH) auto
  qed
  then have m: "map (addr_pre f h) (subsections (h ! a)) = map (addr_pre g' h) (subsections (h ! a))"
    by simp
  show ?case unfolding g by (simp only: addr_pre.simps m)
qed

lemma addr_pre_unfold:
  assumes "ordered h k" and "a < length h"
  shows "addr_pre (length h) h a
         = a # concat (map (addr_pre (length h) h) (subsections (h ! a)))"
proof -
  have "addr_pre (length h) h a = addr_pre (Suc (length h)) h a"
    using assms by (intro addr_pre_fuel) auto
  then show ?thesis by simp
qed

lemma addr_pre_unchanged:
  assumes "\<forall>b. b \<noteq> p \<longrightarrow> h2 ! b = h ! b"
  shows "p \<notin> set (addr_pre f h a) \<Longrightarrow> addr_pre f h2 a = addr_pre f h a"
proof (induction f arbitrary: a)
  case 0
  show ?case by simp
next
  case (Suc f)
  from Suc.prems have ap: "a \<noteq> p"
    and c: "\<forall>c \<in> set (subsections (h ! a)). p \<notin> set (addr_pre f h c)"
    by auto
  from ap assms have e: "h2 ! a = h ! a" by simp
  from c Suc.IH
  have m: "map (addr_pre f h2) (subsections (h ! a)) = map (addr_pre f h) (subsections (h ! a))"
    by simp
  show ?case by (simp only: addr_pre.simps e m)
qed

lemma addr_pre_ge:
  assumes "ordered h k"
  shows "a < length h \<Longrightarrow> b \<in> set (addr_pre f h a) \<Longrightarrow> a \<le> b"
proof (induction f arbitrary: a)
  case 0
  then show ?case by simp
next
  case (Suc f)
  from Suc.prems(2) consider "b = a"
    | c where "c \<in> set (subsections (h ! a))" "b \<in> set (addr_pre f h c)"
    by auto
  then show ?case
  proof cases
    case 1
    then show ?thesis by simp
  next
    case 2
    from ordered_child [OF assms Suc.prems(1) 2(1)] have ac: "a < c" "c < length h"
      by simp_all
    from Suc.IH [OF ac(2) 2(2)] ac(1) show ?thesis by simp
  qed
qed

lemma addr_pre_hd: "a \<in> set (addr_pre f h a)"
  by (cases f) simp_all

lemma chain_lt:
  assumes "ordered h k"
  shows "a < length h \<Longrightarrow> chain h a path \<Longrightarrow> \<forall>x \<in> set path. a < x \<and> x < k"
proof (induction path arbitrary: a)
  case Nil
  show ?case by simp
next
  case (Cons b path)
  from Cons.prems(2) have b: "b \<in> set (subsections (h ! a))" "chain h b path"
    by auto
  from ordered_child [OF assms Cons.prems(1) b(1)] have ab: "a < b" "b < k" "b < length h"
    by simp_all
  from Cons.IH [OF ab(3) b(2)] ab show ?case by auto
qed

lemma chain_append: "chain h a (xs @ ys) \<Longrightarrow> chain h a xs"
  by (induction xs arbitrary: a) auto

lemma chain_mem:
  assumes "ordered h k"
  shows "a < length h \<Longrightarrow> chain h a path \<Longrightarrow> last (a # path) \<in> set (addr_pre (length h) h a)"
proof (induction path arbitrary: a)
  case Nil
  show ?case by (simp add: addr_pre_hd)
next
  case (Cons b path)
  from Cons.prems(2) have b: "b \<in> set (subsections (h ! a))" "chain h b path"
    by auto
  from ordered_child [OF assms Cons.prems(1) b(1)] have bl: "b < length h"
    by simp
  from Cons.IH [OF bl b(2)] b(1)
  have "last (b # path) \<in> set (concat (map (addr_pre (length h) h) (subsections (h ! a))))"
    by auto
  then show ?case
    by (simp add: addr_pre_unfold [OF assms Cons.prems(1)])
qed

lemma chain_extend:
  assumes o: "ordered h k" and same: "\<forall>b. b \<noteq> parent \<longrightarrow> h2 ! b = h ! b"
    and subs: "subsections (h2 ! parent) = subsections (h ! parent) @ [x]"
  shows "a < length h \<Longrightarrow> chain h a path \<Longrightarrow> last (a # path) = parent \<Longrightarrow>
           chain h2 a (path @ [x])"
proof (induction path arbitrary: a)
  case Nil
  then show ?case using subs by simp
next
  case (Cons b path)
  have "last (b # path) \<in> set (b # path)" by (rule last_in_set) simp
  with chain_lt [OF o Cons.prems(1,2)] have "a < last (b # path)" and bl: "b < k"
    by simp_all
  with Cons.prems(3) have "a \<noteq> parent" by simp
  with same have e: "h2 ! a = h ! a" by simp
  from o bl have "b < length h" by (simp add: ordered_def)
  from Cons.IH [OF this] Cons.prems have "chain h2 b (path @ [x])" by simp
  with Cons.prems(2) e show ?case by simp
qed

lemma attach_props:
  assumes "parent < length h" and "parent \<noteq> x"
  shows "length (attach h parent x) = length h"
    and "\<forall>b. b \<noteq> parent \<longrightarrow> attach h parent x ! b = h ! b"
    and "subsections (attach h parent x ! parent) = subsections (h ! parent) @ [x]"
    and "sec_key (attach h parent x ! parent) = sec_key (h ! parent)"
proof -
  obtain t l c ps pe subs where p: "h ! parent = DocumentSection t l c ps pe subs"
    by (cases "h ! parent")
  show "length (attach h parent x) = length h"
    by (simp add: attach_def Let_def)
  show "\<forall>b. b \<noteq> parent \<longrightarrow> attach h parent x ! b = h ! b"
    by (simp add: attach_def Let_def)
  from assms show "subsections (attach h parent x ! parent) = subsections (h ! parent) @ [x]"
    by (simp add: attach_def Let_def p)
  from assms show "sec_key (attach h parent x ! parent) = sec_key (h ! parent)"
    by (simp add: attach_def Let_def p sec_key_def)
qed

lemma md_build_loop_attach:
  "md_build_loop h roots stack (x # xs) =
     (case md_pop_stack h stack x of
        [] \<Rightarrow> md_build_loop h (roots @ [x]) [x] xs
      | parent # stack' \<Rightarrow> md_build_loop (attach h parent x) roots (x # parent # stack') xs)"
  by (simp add: attach_def Let_def split: list.split)

lemma md_pop_stack_suffix: "\<exists>popped. stack = popped @ md_pop_stack h stack x"
proof (induction stack)
  case Nil
  show ?case by simp
next
  case (Cons top_section stack)
  then obtain popped where p: "stack = popped @ md_pop_stack h stack x" by blast
  show ?case
  proof (cases "level (h ! top_section) \<ge> level (h ! x)")
    case True
    with p have "top_section # stack = (top_section # popped) @ md_pop_stack h (top_section # stack) x"
      by simp
    then show ?thesis by blast
  next
    case False
    then have "top_section # stack = [] @ md_pop_stack h (top_section # stack) x"
      by simp
    then show ?thesis by blast
  qed
qed

lemma ordered_attach:
  assumes o: "ordered h k" and kn: "k < length h" and pk: "parent < k"
    and len: "length h2 = length h"
    and same: "\<forall>b. b \<noteq> parent \<longrightarrow> h2 ! b = h ! b"
    and subs: "subsections (h2 ! parent) = subsections (h ! parent) @ [k]"
  shows "ordered h2 (Suc k)"
  unfolding ordered_def
proof (intro conjI allI impI ballI)
  from kn len show "Suc k \<le> length h2" by simp
next
  fix a b assume a: "a < length h2" and b: "b \<in> set (subsections (h2 ! a))"
  from a len have al: "a < length h" by simp
  have "a < b \<and> b < Suc k"
  proof (cases "a = parent")
    case True
    with b subs have "b \<in> set (subsections (h ! a)) \<or> b = k" by auto
    then show ?thesis
    proof
      assume "b \<in> set (subsections (h ! a))"
      from ordered_child [OF o al this] show ?thesis by simp
    next
      assume "b = k"
      with True pk show ?thesis by simp
    qed
  next
    case False
    with same b have "b \<in> set (subsections (h ! a))" by simp
    from ordered_child [OF o al this] show ?thesis by simp
  qed
  then show "a < b" and "b < Suc k" by simp_all
qed

lemma spine_append:
  assumes o: "ordered h k" and o2: "ordered h2 (Suc k)" and len: "length h2 = length h"
    and kn: "k < length h"
    and same: "\<forall>b. b \<noteq> parent \<longrightarrow> h2 ! b = h ! b"
    and subs: "subsections (h2 ! parent) = subsections (h ! parent) @ [k]"
    and leaf: "subsections (h ! k) = []" and pk: "parent < k"
  shows "a < length h \<Longrightarrow> chain h a path \<Longrightarrow> last (a # path) = parent \<Longrightarrow>
         distinct (addr_pre (length h) h a) \<Longrightarrow>
         addr_pre (length h) h2 a = addr_pre (length h) h a @ [k]"
proof (induction path arbitrary: a)
  case Nil
  let ?n = "length h"
  from Nil have a: "a = parent" by simp
  from pk have "k \<noteq> parent" by simp
  with same leaf have "subsections (h2 ! k) = []" by simp
  with addr_pre_unfold [OF o2, of k] kn len have k2: "addr_pre ?n h2 k = [k]" by simp
  have "addr_pre ?n h2 c = addr_pre ?n h c" if c: "c \<in> set (subsections (h ! parent))" for c
  proof -
    from pk kn have "parent < length h" by simp
    from ordered_child [OF o this c] have pc: "parent < c" "c < length h" by simp_all
    have "parent \<notin> set (addr_pre ?n h c)"
    proof
      assume "parent \<in> set (addr_pre ?n h c)"
      from addr_pre_ge [OF o pc(2) this] pc(1) show False by simp
    qed
    then show ?thesis by (rule addr_pre_unchanged [OF same])
  qed
  then have ch: "map (addr_pre ?n h2) (subsections (h ! parent))
      = map (addr_pre ?n h) (subsections (h ! parent))"
    by simp
  from Nil(1) a have pl: "parent < length h" by simp
  from addr_pre_unfold [OF o2, of parent] pl len
  have "addr_pre ?n h2 parent
      = parent # concat (map (addr_pre ?n h2) (subsections (h ! parent))) @ addr_pre ?n h2 k"
    by (simp add: subs)
  also have "\<dots> = (parent # concat (map (addr_pre ?n h) (subsections (h ! parent)))) @ [k]"
    by (simp add: ch k2)
  also have "\<dots> = addr_pre ?n h parent @ [k]"
    by (simp only: addr_pre_unfold [OF o pl, symmetric])
  finally show ?case by (simp only: a)
next
  case (Cons b path)
  let ?n = "length h"
  let ?subs = "subsections (h ! a)"
  from Cons.prems(2) have sn: "?subs \<noteq> []" and lb: "last ?subs = b" and cb: "chain h b path"
    by simp_all
  then have sb: "?subs = butlast ?subs @ [b]" by (metis append_butlast_last_id)
  from sn lb have bm: "b \<in> set ?subs" by (metis last_in_set)
  from ordered_child [OF o Cons.prems(1) bm] have bl: "b < length h" by simp
  have "last (b # path) \<in> set (b # path)" by (rule last_in_set) simp
  with chain_lt [OF o Cons.prems(1,2)] have "a < last (b # path)"
    by simp
  with Cons.prems(3) have ap: "a \<noteq> parent" by simp
  with same have e: "h2 ! a = h ! a" by simp
  from Cons.prems(3) have lp: "last (b # path) = parent" by simp
  from Cons.prems(4) have "distinct (concat (map (addr_pre ?n h) ?subs))"
    by (simp add: addr_pre_unfold [OF o Cons.prems(1)])
  then have "distinct (concat (map (addr_pre ?n h) (butlast ?subs)) @ addr_pre ?n h b)"
    by (subst (asm) sb) simp
  then have db: "distinct (addr_pre ?n h b)"
    and dj: "set (concat (map (addr_pre ?n h) (butlast ?subs))) \<inter> set (addr_pre ?n h b) = {}"
    by simp_all
  from Cons.IH [OF bl cb lp db] have ih: "addr_pre ?n h2 b = addr_pre ?n h b @ [k]" .
  from chain_mem [OF o bl cb] lp have pm: "parent \<in> set (addr_pre ?n h b)" by simp
  have "addr_pre ?n h2 c = addr_pre ?n h c" if c: "c \<in> set (butlast ?subs)" for c
  proof -
    from c dj pm have "parent \<notin> set (addr_pre ?n h c)" by auto
    then show ?thesis by (rule addr_pre_unchanged [OF same])
  qed
  then have ch: "map (addr_pre ?n h2) (butlast ?subs) = map (addr_pre ?n h) (butlast ?subs)"
    by simp
  from addr_pre_unfold [OF o2, of a] Cons.prems(1) len e
  have "addr_pre ?n h2 a = a # concat (map (addr_pre ?n h2) ?subs)" by simp
  also have "\<dots> = a # concat (map (addr_pre ?n h2) (butlast ?subs)) @ addr_pre ?n h2 b"
    by (subst sb) simp
  also have "\<dots> = (a # concat (map (addr_pre ?n h) (butlast ?subs)) @ addr_pre ?n h b) @ [k]"
    by (simp add: ch ih)
  also have "a # concat (map (addr_pre ?n h) (butlast ?subs)) @ addr_pre ?n h b
      = a # concat (map (addr_pre ?n h) ?subs)"
    by (subst (2) sb) simp
  also have "\<dots> = addr_pre ?n h a"
    by (simp only: addr_pre_unfold [OF o Cons.prems(1), symmetric])
  finally show ?case .
qed

lemma concat_map_last:
  "xs \<noteq> [] \<Longrightarrow> concat (map F xs) = concat (map F (butlast xs)) @ F (last xs)"
  by (induction xs) auto

lemma ordered_Suc:
  assumes "ordered h k" and "k < length h"
  shows "ordered h (Suc k)"
  unfolding ordered_def
proof (intro conjI allI impI ballI)
  from assms(2) show "Suc k \<le> length h" by simp
next
  fix a b assume "a < length h" and "b \<in> set (subsections (h ! a))"
  from ordered_child [OF assms(1) this] show "a < b" and "b < Suc k" by simp_all
qed

lemma build_inv_root:
  assumes inv: "build_inv h roots stack k" and kn: "k < length h"
  shows "build_inv h (roots @ [k]) [k] (Suc k)"
proof -
  from inv have o: "ordered h k"
    and leaf: "\<forall>a. k \<le> a \<and> a < length h \<longrightarrow> subsections (h ! a) = []"
    and pre: "concat (map (addr_pre (length h) h) roots) = [0..<k]"
    by (simp_all add: build_inv_def)
  from leaf kn have "subsections (h ! k) = []" by simp
  with addr_pre_unfold [OF o kn] have "addr_pre (length h) h k = [k]" by simp
  with pre have "concat (map (addr_pre (length h) h) (roots @ [k])) = [0..<Suc k]" by simp
  with ordered_Suc [OF o kn] leaf show ?thesis
    by (simp add: build_inv_def)
qed

lemma build_inv_attach:
  assumes inv: "build_inv h roots stack k" and kn: "k < length h"
    and pop: "md_pop_stack h stack k = parent # stack'"
  shows "build_inv (attach h parent k) roots (k # parent # stack') (Suc k)" and "parent < k"
proof -
  let ?n = "length h"
  let ?h2 = "attach h parent k"
  let ?r = "last roots"
  from inv have o: "ordered h k"
    and leaf: "\<forall>a. k \<le> a \<and> a < length h \<longrightarrow> subsections (h ! a) = []"
    and pre: "concat (map (addr_pre ?n h) roots) = [0..<k]"
    by (simp_all add: build_inv_def)
  from md_pop_stack_suffix [of stack h k] pop obtain popped
    where st: "stack = popped @ parent # stack'" by auto
  then have sn: "stack \<noteq> []" by simp
  have rn: "roots \<noteq> []"
  proof
    assume "roots = []"
    with inv have "stack = []" by (simp add: build_inv_def)
    with sn show False by simp
  qed
  with inv obtain path where rs: "rev stack = ?r # path" and ch: "chain h ?r path"
    by (auto simp: build_inv_def)
  from rs st have eq: "?r # path = (rev stack' @ [parent]) @ rev popped" by simp
  obtain path1 where p1: "rev stack' @ [parent] = ?r # path1"
    and pp: "path = path1 @ rev popped"
  proof (cases "rev stack'")
    case Nil
    with eq that [of "[]"] show ?thesis by simp
  next
    case (Cons x xs)
    with eq that [of "xs @ [parent]"] show ?thesis by simp
  qed
  from ch pp have ch1: "chain h ?r path1" by (auto dest: chain_append)
  from p1 have lp: "last (?r # path1) = parent" by (metis last_snoc)
  from rn have rin: "?r \<in> set roots" by simp
  then have "set (addr_pre ?n h ?r) \<subseteq> set (concat (map (addr_pre ?n h) roots))" by auto
  then have sub: "set (addr_pre ?n h ?r) \<subseteq> set [0..<k]" by (simp only: pre)
  with addr_pre_hd [of ?r ?n h] have "?r < k" by auto
  with kn have rl: "?r < ?n" by simp
  from chain_mem [OF o rl ch1] lp have pm: "parent \<in> set (addr_pre ?n h ?r)" by simp
  with sub show pk: "parent < k" by auto
  from pk kn have pl: "parent < ?n" "parent \<noteq> k" by simp_all
  note ap = attach_props [OF pl]
  from kn leaf have lk: "subsections (h ! k) = []" by simp
  have o2: "ordered ?h2 (Suc k)" by (rule ordered_attach [OF o kn pk ap(1,2,3)])
  from pre have "distinct (concat (map (addr_pre ?n h) roots))" by simp
  then have "distinct (concat (map (addr_pre ?n h) (butlast roots)) @ addr_pre ?n h ?r)"
    by (simp only: concat_map_last [OF rn])
  then have dr: "distinct (addr_pre ?n h ?r)"
    and dj: "set (concat (map (addr_pre ?n h) (butlast roots))) \<inter> set (addr_pre ?n h ?r) = {}"
    by simp_all
  from spine_append [OF o o2 ap(1) kn ap(2,3) lk pk rl ch1 lp dr]
  have sr: "addr_pre ?n ?h2 ?r = addr_pre ?n h ?r @ [k]" .
  have "addr_pre ?n ?h2 a = addr_pre ?n h a" if a: "a \<in> set (butlast roots)" for a
  proof -
    from a dj pm have "parent \<notin> set (addr_pre ?n h a)" by auto
    then show ?thesis by (rule addr_pre_unchanged [OF ap(2)])
  qed
  then have mb: "map (addr_pre ?n ?h2) (butlast roots) = map (addr_pre ?n h) (butlast roots)"
    by simp
  have "concat (map (addr_pre ?n ?h2) roots)
      = concat (map (addr_pre ?n ?h2) (butlast roots)) @ addr_pre ?n ?h2 ?r"
    by (rule concat_map_last [OF rn])
  also have "\<dots> = (concat (map (addr_pre ?n h) (butlast roots)) @ addr_pre ?n h ?r) @ [k]"
    by (simp add: mb sr)
  also have "\<dots> = concat (map (addr_pre ?n h) roots) @ [k]"
    by (simp only: concat_map_last [OF rn])
  also have "\<dots> = [0..<Suc k]"
    by (simp add: pre)
  finally have pre2: "concat (map (addr_pre (length ?h2) ?h2) roots) = [0..<Suc k]"
    by (simp only: ap(1))
  have "rev (k # parent # stack') = ?r # (path1 @ [k])"
    using p1 by simp
  moreover have "chain ?h2 ?r (path1 @ [k])"
    by (rule chain_extend [OF o ap(2,3) rl ch1 lp])
  ultimately have sp: "\<exists>path. rev (k # parent # stack') = ?r # path \<and> chain ?h2 ?r path"
    by blast
  have leaf2: "\<forall>a. Suc k \<le> a \<and> a < length ?h2 \<longrightarrow> subsections (?h2 ! a) = []"
  proof (intro allI impI)
    fix a assume a: "Suc k \<le> a \<and> a < length ?h2"
    with pk have "a \<noteq> parent" by simp
    with ap(2) have "?h2 ! a = h ! a" by simp
    with a leaf ap(1) show "subsections (?h2 ! a) = []" by simp
  qed
  from o2 leaf2 pre2 sp rn show "build_inv ?h2 roots (k # parent # stack') (Suc k)"
    unfolding build_inv_def by simp
qed

lemma md_build_loop_order:
  "build_inv h roots stack k \<Longrightarrow>
     (case md_build_loop h roots stack [k..<length h] of
        (h', roots') \<Rightarrow>
          length h' = length h
          \<and> concat (map (addr_pre (length h) h') roots') = [0..<length h]
          \<and> (\<forall>a < length h. sec_key (h' ! a) = sec_key (h ! a)))"
proof (induction "length h - k" arbitrary: h roots stack k)
  case 0
  then have "ordered h k" by (simp add: build_inv_def)
  then have "k \<le> length h" by (simp add: ordered_def)
  with 0(1) have k: "k = length h" by simp
  with 0(2) show ?case by (simp add: build_inv_def)
next
  case (Suc m)
  then have kn: "k < length h" by simp
  then have upt: "[k..<length h] = k # [Suc k..<length h]" by (rule upt_conv_Cons)
  show ?case
  proof (cases "md_pop_stack h stack k")
    case Nil
    note inv' = build_inv_root [OF Suc.prems kn]
    from Suc.hyps(2) have "m = length h - Suc k" by simp
    from Suc.hyps(1) [OF this inv'] show ?thesis
      by (simp only: upt md_build_loop_attach Nil list.case)
  next
    case (Cons parent stack')
    let ?h2 = "attach h parent k"
    note ia = build_inv_attach [OF Suc.prems kn Cons]
    from ia(2) kn have pl: "parent < length h" "parent \<noteq> k" by simp_all
    note ap = attach_props [OF pl]
    from Suc.hyps(2) ap(1) have "m = length ?h2 - Suc k" by simp
    from Suc.hyps(1) [OF this ia(1)]
    have r: "case md_build_loop ?h2 roots (k # parent # stack') [Suc k..<length h] of
        (h', roots') \<Rightarrow>
          length h' = length h
          \<and> concat (map (addr_pre (length h) h') roots') = [0..<length h]
          \<and> (\<forall>a < length h. sec_key (h' ! a) = sec_key (?h2 ! a))"
      by (simp only: ap(1))
    have key: "sec_key (?h2 ! a) = sec_key (h ! a)" for a
      using ap(2,4) by (cases "a = parent") simp_all
    obtain h' roots' where res:
      "md_build_loop ?h2 roots (k # parent # stack') [Suc k..<length h] = (h', roots')"
      by (cases "md_build_loop ?h2 roots (k # parent # stack') [Suc k..<length h]")
    from r have "length h' = length h
          \<and> concat (map (addr_pre (length h) h') roots') = [0..<length h]
          \<and> (\<forall>a < length h. sec_key (h' ! a) = sec_key (h ! a))"
      by (simp add: res key)
    moreover have "md_build_loop h roots stack [k..<length h] = (h', roots')"
      by (simp only: upt md_build_loop_attach Cons list.case res)
    ultimately show ?thesis by simp
  qed
qed

lemma builder_keeps_order:
  assumes "\<forall>x \<in> set cells. subsections x = []"
  shows "map (\<lambda>s. sec_key (section_of s))
           (all_sections_of (forest (md_build_section_hierarchy cells [0..<length cells])))
         = map sec_key cells"
proof (cases "cells = []")
  case True
  then show ?thesis
    by (simp add: md_build_section_hierarchy_def forest_def all_sections_of_def)
next
  case False
  have "subsections (cells ! a) = []" if "a < length cells" for a
    using assms that by simp
  then have inv: "build_inv cells [] [] 0"
    by (simp add: build_inv_def ordered_def)
  obtain h' roots' where res: "md_build_loop cells [] [] [0..<length cells] = (h', roots')"
    by (cases "md_build_loop cells [] [] [0..<length cells]")
  with md_build_loop_order [OF inv] have len: "length h' = length cells"
    and pre: "concat (map (addr_pre (length cells) h') roots') = [0..<length cells]"
    and key: "\<forall>a < length cells. sec_key (h' ! a) = sec_key (cells ! a)"
    by simp_all
  from False res have "md_build_section_hierarchy cells [0..<length cells] = (h', roots')"
    by (simp add: md_build_section_hierarchy_def)
  then have "map (\<lambda>s. sec_key (section_of s))
           (all_sections_of (forest (md_build_section_hierarchy cells [0..<length cells])))
      = concat (map (\<lambda>r. map (\<lambda>s. sec_key (section_of s))
                           (flatten (section_tree (length h') h' r))) roots')"
    by (simp add: forest_def all_sections_of_def map_concat comp_def)
  also have "\<dots> = concat (map (\<lambda>r. map (\<lambda>b. sec_key (h' ! b)) (addr_pre (length h') h' r)) roots')"
    by (simp only: flatten_section_tree)
  also have "\<dots> = map (\<lambda>b. sec_key (h' ! b)) (concat (map (addr_pre (length cells) h') roots'))"
    by (simp add: map_concat comp_def len)
  also have "\<dots> = map (\<lambda>b. sec_key (h' ! b)) [0..<length cells]"
    by (simp only: pre)
  also have "\<dots> = map (\<lambda>b. sec_key (cells ! b)) [0..<length cells]"
    using key by simp
  also have "\<dots> = map sec_key cells"
    by (rule nth_equalityI) simp_all
  finally show ?thesis .
qed

subsection \<open>The round trip\<close>

lemma shift_run_texts: "map block_text (shift_run items) = map block_text items"
  by (cases items) (simp_all add: shift_run_def Let_def comp_def)

lemma shift_run_types: "\<forall>b \<in> set (shift_run items). block_type b = ''list_item''"
  by (cases items) (auto simp: shift_run_def Let_def)

lemma restored_blocks_texts:
  "map block_text (restored_blocks blks items) = map block_text (items @ blks)"
  by (induction blks arbitrary: items) (simp_all add: shift_run_texts)

lemma restored_blocks_types:
  "\<forall>b \<in> set (restored_blocks blks items). block_type b \<noteq> ''heading''"
proof (induction blks arbitrary: items)
  case Nil
  from shift_run_types [of items] show ?case by auto
next
  case (Cons b blks)
  from shift_run_types [of items] Cons [of "[]"] Cons [of "items @ [b]"] show ?case
    by auto
qed

lemma restored_page_texts:
  "map block_text
     (filter (\<lambda>b. block_type b \<noteq> ''heading'')
        (reading_order_blocks (content (restored_page secs p))))
   = map block_text (reading_order_blocks (content p))"
proof -
  have "filter (\<lambda>b. block_type b \<noteq> ''heading'') (map heading_block S) = []" for S
    by (induction S) (simp_all add: heading_block_def)
  moreover have "filter (\<lambda>b. block_type b \<noteq> ''heading'')
       (restored_blocks (reading_order_blocks (content p)) [])
      = restored_blocks (reading_order_blocks (content p)) []"
    using restored_blocks_types by (simp add: filter_id_conv)
  ultimately show ?thesis
    by (simp add: restored_page_def Let_def restored_blocks_texts)
qed

text \<open>
  Claim C1, as it holds. Let every page of a document have a number that is not
  negative, blocks that are paragraphs and list items whose texts are not empty, are on
  one line, have no whitespace at their ends and no \<open><\<close> (a paragraph, moreover, does not
  begin like a table row, a list item or a heading), list items at the canonical
  positions, tables that have a header and rows of its length whose cells have no pipe,
  no line feed, no \<open><\<close> and no whitespace at their ends, no body text without blocks, and,
  when no section starts on the page and it begins with list items, the first of them the
  leftmost of its run. Let every section have a title of letters and digits, a level from
  1 to 6 and no content, and let the sections, each before its subsections, be the
  sections that start on the pages, in the order of the pages. Then \<open>from_markdown\<close> of
  \<open>to_markdown\<close> of the document returns a document with the same page numbers in the
  same order, the same tables, on every page the headings of its sections and then the
  blocks with the same texts (paragraphs without their positions, the list items of a run
  moved so that the leftmost is at 10), and sections that have, each before its
  subsections, the same titles, levels and first pages.
\<close>

theorem round_trip:
  assumes "\<forall>p \<in> set (pages d). wf_page (sections d) p"
    and "\<forall>s \<in> set (all_sections_of (sections d)). wf_section s"
    and "concat (map (\<lambda>p. find_sections_on_page (sections d) (page_number p)) (pages d))
         = all_sections_of (sections d)"
  shows "\<exists>d'. from_markdown (to_markdown d) = Some d'
           \<and> pages d' = map (restored_page (sections d)) (pages d)
           \<and> map page_number (pages d') = map page_number (pages d)
           \<and> map (\<lambda>p. tables (content p)) (pages d') = map (\<lambda>p. tables (content p)) (pages d)
           \<and> map (\<lambda>p. map block_text
                          (filter (\<lambda>b. block_type b \<noteq> ''heading'')
                             (reading_order_blocks (content p)))) (pages d')
             = map (\<lambda>p. map block_text (reading_order_blocks (content p))) (pages d)
           \<and> map (\<lambda>s. sec_key (section_of s)) (all_sections_of (sections d'))
             = map (\<lambda>s. sec_key (section_of s)) (all_sections_of (sections d))"
proof -
  from round_trip_core [OF assms] obtain cells
    where f: "from_markdown (to_markdown d)
           = Some \<lparr>sections = forest (md_build_section_hierarchy cells [0..<length cells]),
                   pages = map (restored_page (sections d)) (pages d)\<rparr>"
      and k: "map (\<lambda>x. (title x, level x, page_start x, page_end x, subsections x)) cells
           = map (\<lambda>s. (title (section_of s), level (section_of s), page_start (section_of s),
                       page_start (section_of s), []))
               (all_sections_of (sections d))"
    by blast
  from arg_cong [OF k, of "map (\<lambda>t. snd (snd (snd (snd t))))"]
  have "map subsections cells = map (\<lambda>s. []) (all_sections_of (sections d))"
    by (simp add: comp_def)
  then have "set (map subsections cells) \<subseteq> {[]}"
    by auto
  then have sub: "\<forall>x \<in> set cells. subsections x = []" by auto
  from arg_cong [OF k, of "map (\<lambda>t. (fst t, fst (snd t), fst (snd (snd t))))"]
  have key: "map sec_key cells = map (\<lambda>s. sec_key (section_of s)) (all_sections_of (sections d))"
    by (simp add: comp_def sec_key_def [abs_def])
  let ?d' = "\<lparr>sections = forest (md_build_section_hierarchy cells [0..<length cells]),
              pages = map (restored_page (sections d)) (pages d)\<rparr>"
  have 1: "pages ?d' = map (restored_page (sections d)) (pages d)" by simp
  have 2: "map page_number (pages ?d') = map page_number (pages d)"
    by (simp add: restored_page_def Let_def comp_def)
  have 3: "map (\<lambda>p. tables (content p)) (pages ?d') = map (\<lambda>p. tables (content p)) (pages d)"
    by (simp add: restored_page_def Let_def comp_def)
  have 4: "map (\<lambda>p. map block_text
                          (filter (\<lambda>b. block_type b \<noteq> ''heading'')
                             (reading_order_blocks (content p)))) (pages ?d')
             = map (\<lambda>p. map block_text (reading_order_blocks (content p))) (pages d)"
    by (simp add: comp_def restored_page_texts)
  have 5: "map (\<lambda>s. sec_key (section_of s)) (all_sections_of (sections ?d'))
             = map (\<lambda>s. sec_key (section_of s)) (all_sections_of (sections d))"
    using builder_keeps_order [OF sub] key by simp
  from f 1 2 3 4 5 show ?thesis by blast
qed

theorem round_trip_witness:
  "\<exists>d'. from_markdown (to_markdown rt_doc) = Some d'
     \<and> pages d' = map (restored_page (sections rt_doc)) (pages rt_doc)
     \<and> map page_number (pages d') = map page_number (pages rt_doc)
     \<and> map (\<lambda>p. tables (content p)) (pages d') = map (\<lambda>p. tables (content p)) (pages rt_doc)
     \<and> map (\<lambda>p. map block_text
                    (filter (\<lambda>b. block_type b \<noteq> ''heading'')
                       (reading_order_blocks (content p)))) (pages d')
       = map (\<lambda>p. map block_text (reading_order_blocks (content p))) (pages rt_doc)
     \<and> map (\<lambda>s. sec_key (section_of s)) (all_sections_of (sections d'))
       = map (\<lambda>s. sec_key (section_of s)) (all_sections_of (sections rt_doc))"
proof (rule round_trip)
  show "\<forall>p \<in> set (pages rt_doc). wf_page (sections rt_doc) p"
    by code_simp
  show "\<forall>s \<in> set (all_sections_of (sections rt_doc)). wf_section s"
    by code_simp
  show "concat (map (\<lambda>p. find_sections_on_page (sections rt_doc) (page_number p)) (pages rt_doc))
         = all_sections_of (sections rt_doc)"
    by code_simp
qed

lemma dash_doc_back:
  "from_markdown (to_markdown dash_doc)
   = Some \<lparr>sections = [],
           pages =
             [\<lparr>page_number = 1, classification = NATIVE_TEXT,
               content =
                 \<lparr>body_text = [], headers = [], footers = [], tables = [],
                  reading_order_blocks =
                    [\<lparr>block_text = ''x'', bbox = (10, 0, 0, 0), block_type = ''list_item''\<rparr>]\<rparr>,
               ocr_confidence = None\<rparr>]\<rparr>"
  by code_simp

text \<open>
  Claim C1 as stated fails. The document below has no section, no table and no list
  item, so its titles, cells and positions are as the claim asks; its only paragraph,
  \<open>- x\<close>, comes back as the list item \<open>x\<close>, and no paragraph text is left.
\<close>

theorem round_trip_counterexample:
  "\<not> (\<forall>d. list_all (\<lambda>s. list_all is_alnum (title (section_of s)))
              (all_sections_of (sections d))
          \<and> list_all (\<lambda>p. list_all (\<lambda>t. list_all (list_all
                 (\<lambda>c. CHR ''|'' \<notin> set c \<and> CHR ''\<newline>'' \<notin> set c)) (rows t)) (tables (content p)))
              (pages d)
          \<and> list_all (\<lambda>p. list_all (\<lambda>b. block_type b = ''list_item'' \<longrightarrow> canonical_x b)
                 (reading_order_blocks (content p)))
              (pages d)
          \<longrightarrow> (\<exists>d'. from_markdown (to_markdown d) = Some d'
                 \<and> map (\<lambda>p. map block_text
                          (filter (\<lambda>b. block_type b = ''paragraph'')
                             (reading_order_blocks (content p)))) (pages d')
                   = map (\<lambda>p. map block_text
                          (filter (\<lambda>b. block_type b = ''paragraph'')
                             (reading_order_blocks (content p)))) (pages d)))"
proof
  assume a: "\<forall>d. list_all (\<lambda>s. list_all is_alnum (title (section_of s)))
              (all_sections_of (sections d))
          \<and> list_all (\<lambda>p. list_all (\<lambda>t. list_all (list_all
                 (\<lambda>c. CHR ''|'' \<notin> set c \<and> CHR ''\<newline>'' \<notin> set c)) (rows t)) (tables (content p)))
              (pages d)
          \<and> list_all (\<lambda>p. list_all (\<lambda>b. block_type b = ''list_item'' \<longrightarrow> canonical_x b)
                 (reading_order_blocks (content p)))
              (pages d)
          \<longrightarrow> (\<exists>d'. from_markdown (to_markdown d) = Some d'
                 \<and> map (\<lambda>p. map block_text
                          (filter (\<lambda>b. block_type b = ''paragraph'')
                             (reading_order_blocks (content p)))) (pages d')
                   = map (\<lambda>p. map block_text
                          (filter (\<lambda>b. block_type b = ''paragraph'')
                             (reading_order_blocks (content p)))) (pages d))"
  have "list_all (\<lambda>s. list_all is_alnum (title (section_of s)))
              (all_sections_of (sections dash_doc))
          \<and> list_all (\<lambda>p. list_all (\<lambda>t. list_all (list_all
                 (\<lambda>c. CHR ''|'' \<notin> set c \<and> CHR ''\<newline>'' \<notin> set c)) (rows t)) (tables (content p)))
              (pages dash_doc)
          \<and> list_all (\<lambda>p. list_all (\<lambda>b. block_type b = ''list_item'' \<longrightarrow> canonical_x b)
                 (reading_order_blocks (content p)))
              (pages dash_doc)"
    by (simp add: dash_doc_def all_sections_of_def)
  with a obtain d' where f: "from_markdown (to_markdown dash_doc) = Some d'"
    and e: "map (\<lambda>p. map block_text
                          (filter (\<lambda>b. block_type b = ''paragraph'')
                             (reading_order_blocks (content p)))) (pages d')
                   = map (\<lambda>p. map block_text
                          (filter (\<lambda>b. block_type b = ''paragraph'')
                             (reading_order_blocks (content p)))) (pages dash_doc)"
    by blast
  from f have d': "d' = \<lparr>sections = [],
           pages =
             [\<lparr>page_number = 1, classification = NATIVE_TEXT,
               content =
                 \<lparr>body_text = [], headers = [], footers = [], tables = [],
                  reading_order_blocks =
                    [\<lparr>block_text = ''x'', bbox = (10, 0, 0, 0), block_type = ''list_item''\<rparr>]\<rparr>,
               ocr_confidence = None\<rparr>]\<rparr>"
    by (simp add: dash_doc_back)
  from e show False
    unfolding d' by (simp add: dash_doc_def)
qed
end
